theory Spec2Isabelle
  imports Main "HOL-Library.AList"
begin

section \<open>Data model of the rule resolver\<close>

text \<open>
  The resolver (\<^verbatim>\<open>rule-resolver\<close>, compiled copy in
  \<^verbatim>\<open>build/utils/httpTransportWrapper.js\<close>) works on JSON documents. A field that a
  document may omit is an \<open>option\<close>; a JavaScript object read with
  \<^verbatim>\<open>Object.entries\<close> is an association list in the object's key order.
\<close>

type_synonym path = string

record validation =
  automatable :: "bool option"
  scriptPath :: "string option"

text \<open>
  Interface \<^verbatim>\<open>Rule\<close>; an override is a \<^verbatim>\<open>Partial<Rule> & { reason?: string }\<close>, so
  every field is optional and \<open>reason\<close> is carried along.
\<close>

record rule =
  id_r :: "string option"
  name :: "string option"
  description :: "string option"
  category :: "string option"
  severity :: "string option"
  enabled :: "bool option"
  rationale :: "string option"
  examples :: "string list option"
  validation_r :: "validation option"
  reason :: "string option"

text \<open>Interface \<^verbatim>\<open>RuleSet\<close>: the parsed content of one rule document.\<close>

record ruleSet =
  version :: "string option"
  extends :: "string list option"
  rules :: "(string \<times> rule) list option"
  overrides :: "(string \<times> rule) list option"

text \<open>
  A file either parses to a document or is not valid JSON; \<open>BadJson\<close> carries the
  message of the \<^verbatim>\<open>SyntaxError\<close> that \<^verbatim>\<open>JSON.parse\<close> throws on it. The file
  system is a finite snapshot: an association list from absolute paths to files.
\<close>

datatype fileContent = BadJson string | Doc ruleSet

type_synonym fileSystem = "(path \<times> fileContent) list"

datatype error =
  FileNotFound path
  | InvalidJson string
  | CircularDependency path
  | TypeError string

text \<open>
  \<^verbatim>\<open>path.resolve(path.dirname(absolutePath), parentPath)\<close> is a parameter of the model:
  a function from the child's absolute path and the \<open>extends\<close> entry to the parent's
  absolute path. Paths handed to the resolver are absolute and normalised, where
  \<^verbatim>\<open>path.resolve\<close> is the identity.
\<close>

type_synonym resolver = "path \<Rightarrow> string \<Rightarrow> path"

section \<open>Loading a document\<close>

definition loadRuleSet :: "fileSystem \<Rightarrow> path \<Rightarrow> error + ruleSet" where
  "loadRuleSet fs filePath =
     (case map_of fs filePath of
        None \<Rightarrow> Inl (FileNotFound filePath)
      | Some (BadJson msg) \<Rightarrow> Inl (InvalidJson msg)
      | Some (Doc ruleSet) \<Rightarrow> Inr ruleSet)"

text \<open>\<^verbatim>\<open>!ruleSet.extends || ruleSet.extends.length === 0\<close>\<close>

definition noExtends :: "ruleSet \<Rightarrow> bool" where
  "noExtends ruleSet = (case extends ruleSet of None \<Rightarrow> True | Some ps \<Rightarrow> ps = [])"

definition extendsList :: "ruleSet \<Rightarrow> string list" where
  "extendsList ruleSet = (case extends ruleSet of None \<Rightarrow> [] | Some ps \<Rightarrow> ps)"

section \<open>Inheritance chain\<close>

text \<open>
  \<open>resolveInheritanceChain\<close> with its \<^verbatim>\<open>for\<close> loop over \<open>extends\<close> as the second
  function, \<open>resolveParents\<close>, which carries the chain built so far. Every parent is
  resolved with a copy of the visited set, which by then holds the child.
\<close>

function resolveInheritanceChain ::
    "resolver \<Rightarrow> fileSystem \<Rightarrow> path \<Rightarrow> path set \<Rightarrow> error + path list"
  and resolveParents ::
    "resolver \<Rightarrow> fileSystem \<Rightarrow> path \<Rightarrow> string list \<Rightarrow> path set \<Rightarrow> path list
       \<Rightarrow> error + path list"
where
  "resolveInheritanceChain rp fs absolutePath visited =
     (if absolutePath \<in> visited then Inl (CircularDependency absolutePath)
      else case loadRuleSet fs absolutePath of
          Inl e \<Rightarrow> Inl e
        | Inr ruleSet \<Rightarrow>
            if noExtends ruleSet then Inr [absolutePath]
            else (case resolveParents rp fs absolutePath (extendsList ruleSet)
                         (insert absolutePath visited) [] of
                    Inl e \<Rightarrow> Inl e
                  | Inr chain \<Rightarrow> Inr (chain @ [absolutePath])))"
| "resolveParents rp fs absolutePath [] visited chain = Inr chain"
| "resolveParents rp fs absolutePath (parentPath # rest) visited chain =
     (case resolveInheritanceChain rp fs (rp absolutePath parentPath) visited of
        Inl e \<Rightarrow> Inl e
      | Inr parentChain \<Rightarrow>
          resolveParents rp fs absolutePath rest visited (chain @ parentChain))"
  by pat_completeness auto

termination
proof (relation "inv_image (less_than <*lex*> less_than)
    (\<lambda>x. case x of
       Inl (rp, fs, p, visited) \<Rightarrow> (card (fst ` set fs - visited), 0)
     | Inr (rp, fs, p, ps, visited, chain) \<Rightarrow>
         (card (fst ` set fs - visited), Suc (length ps)))", goal_cases)
  case 1
  show ?case by (intro wf_inv_image wf_lex_prod wf_less_than)
next
  case (2 rp fs absolutePath visited ruleSet)
  have "absolutePath \<in> fst ` set fs"
    using 2(2)
    by (auto simp: loadRuleSet_def split: option.splits fileContent.splits
        dest: map_of_SomeD intro: rev_image_eqI)
  then have "fst ` set fs - insert absolutePath visited \<subset> fst ` set fs - visited"
    using 2(1) by auto
  then have "card (fst ` set fs - insert absolutePath visited)
      < card (fst ` set fs - visited)"
    by (intro psubset_card_mono) auto
  then show ?case by simp
next
  case 3
  show ?case by simp
next
  case 4
  show ?case by simp
qed

declare resolveInheritanceChain.simps [simp del]

text \<open>
  The graph the resolver walks: \<open>(p, q)\<close> is an edge when the document at \<open>p\<close> loads
  and lists an entry that resolves to \<open>q\<close>. It is used to state properties only.
\<close>

definition extendsRel :: "resolver \<Rightarrow> fileSystem \<Rightarrow> (path \<times> path) set" where
  "extendsRel rp fs =
     {(p, q). \<exists>ruleSet. loadRuleSet fs p = Inr ruleSet \<and> q \<in> rp p ` set (extendsList ruleSet)}"

text \<open>
  A path of that graph, written as the positions taken in the successive \<open>extends\<close>
  lists: \<open>walk rp fs p ks q\<close> leads from \<open>p\<close> to \<open>q\<close>. Two paths are distinct when
  their position lists differ.
\<close>

inductive walk :: "resolver \<Rightarrow> fileSystem \<Rightarrow> path \<Rightarrow> nat list \<Rightarrow> path \<Rightarrow> bool"
  for rp :: resolver and fs :: fileSystem
where
  here: "walk rp fs p [] p"
| down: "loadRuleSet fs p = Inr ruleSet \<Longrightarrow> i < length (extendsList ruleSet)
         \<Longrightarrow> walk rp fs (rp p (extendsList ruleSet ! i)) ks q
         \<Longrightarrow> walk rp fs p (i # ks) q"

section \<open>Plain objects\<close>

text \<open>
  \<open>mergedRules\<close> and \<open>sources\<close> are created by \<^verbatim>\<open>{}\<close>. Such an object inherits the
  members of \<^verbatim>\<open>Object.prototype\<close>, so reading one of the names below from it gives
  a function (or, for \<^verbatim>\<open>__proto__\<close>, the prototype) although the object has no
  property of that name.
\<close>

definition objectPrototypeMembers :: "string list" where
  "objectPrototypeMembers =
     [''constructor'', ''__defineGetter__'', ''__defineSetter__'', ''hasOwnProperty'',
      ''__lookupGetter__'', ''__lookupSetter__'', ''isPrototypeOf'',
      ''propertyIsEnumerable'', ''toString'', ''valueOf'', ''__proto__'',
      ''toLocaleString'']"

definition inherited :: "string \<Rightarrow> bool" where
  "inherited k = (k \<in> set objectPrototypeMembers)"

text \<open>
  An object enumerates its keys that are array indices first, in ascending numeric
  order, and its other keys after them in the order they were added. An array index is
  the decimal writing, without leading zeros, of a number below \<open>2\<^sup>3\<^sup>2 - 1\<close>.
\<close>

definition digitValue :: "char \<Rightarrow> nat" where
  "digitValue c = length (takeWhile (\<lambda>d. d \<noteq> c) ''0123456789'')"

definition numericValue :: "string \<Rightarrow> nat" where
  "numericValue k = foldl (\<lambda>n c. 10 * n + digitValue c) 0 k"

definition isArrayIndex :: "string \<Rightarrow> bool" where
  "isArrayIndex k =
     (k \<noteq> [] \<and> list_all (\<lambda>c. c \<in> set ''0123456789'') k
      \<and> (k = ''0'' \<or> hd k \<noteq> CHR ''0'') \<and> numericValue k < 4294967295)"

text \<open>
  An object is the list of its entries in enumeration order. \<open>assign k v obj\<close> is
  \<^verbatim>\<open>obj[k] = v\<close> for a key that is not inherited: a key the object has keeps its place,
  a new array index goes to its numeric place, any other new key goes last.
\<close>

fun insertIndex :: "string \<Rightarrow> 'v \<Rightarrow> (string \<times> 'v) list \<Rightarrow> (string \<times> 'v) list" where
  "insertIndex k v [] = [(k, v)]"
| "insertIndex k v (e # rest) =
     (if isArrayIndex (fst e) \<and> numericValue (fst e) < numericValue k
      then e # insertIndex k v rest
      else (k, v) # e # rest)"

definition assign :: "string \<Rightarrow> 'v \<Rightarrow> (string \<times> 'v) list \<Rightarrow> (string \<times> 'v) list" where
  "assign k v obj =
     (if map_of obj k \<noteq> None then AList.update k v obj
      else if isArrayIndex k then insertIndex k v obj
      else obj @ [(k, v)])"

section \<open>Merging the chain\<close>

text \<open>
  The result of \<open>resolveRules\<close> is \<^verbatim>\<open>{ rules: mergedRules, sources, conflicts }\<close>.
\<close>

record conflictEntry =
  ruleId :: string
  conflict :: string
  conflictSources :: "string list"

record resolvedRuleSet =
  mergedRules :: "(string \<times> rule) list"
  sources :: "(string \<times> string list) list"
  conflicts :: "conflictEntry list"

definition emptyResolved :: resolvedRuleSet where
  "emptyResolved = \<lparr>mergedRules = [], sources = [], conflicts = []\<rparr>"

text \<open>One field of \<^verbatim>\<open>{ ...a, ...b }\<close>: the field of \<open>b\<close> when \<open>b\<close> has it.\<close>

definition spreadField :: "'a option \<Rightarrow> 'a option \<Rightarrow> 'a option" where
  "spreadField a b = (case b of None \<Rightarrow> a | Some v \<Rightarrow> Some v)"

text \<open>\<^verbatim>\<open>{ ...mergedRules[ruleId], ...override }\<close>\<close>

definition spread :: "rule \<Rightarrow> rule \<Rightarrow> rule" where
  "spread a b =
     \<lparr>id_r = spreadField (id_r a) (id_r b),
      name = spreadField (name a) (name b),
      description = spreadField (description a) (description b),
      category = spreadField (category a) (category b),
      severity = spreadField (severity a) (severity b),
      enabled = spreadField (enabled a) (enabled b),
      rationale = spreadField (rationale a) (rationale b),
      examples = spreadField (examples a) (examples b),
      validation_r = spreadField (validation_r a) (validation_r b),
      reason = spreadField (reason a) (reason b)\<rparr>"

text \<open>\<^verbatim>\<open>Object.entries\<close> of a field that may be absent (the loop is skipped then).\<close>

definition entries :: "'a list option \<Rightarrow> 'a list" where
  "entries obj = (case obj of None \<Rightarrow> [] | Some kvs \<Rightarrow> kvs)"

text \<open>
  \<^verbatim>\<open>sources[ruleId][0]\<close>. It is read only when \<open>mergedRules\<close> has the id, and then
  \<open>sources\<close> has it with a non-empty list (lemma \<open>firstSource_defined\<close> below), so the
  last case is never taken on a run that starts from the empty accumulator.
\<close>

definition firstSource :: "(string \<times> string list) list \<Rightarrow> string \<Rightarrow> string" where
  "firstSource srcs rid = (case map_of srcs rid of Some (s # _) \<Rightarrow> s | _ \<Rightarrow> [])"

text \<open>\<^verbatim>\<open>sources[ruleId] || []\<close>\<close>

definition sourcesOf :: "(string \<times> string list) list \<Rightarrow> string \<Rightarrow> string list" where
  "sourcesOf srcs rid = (case map_of srcs rid of None \<Rightarrow> [] | Some l \<Rightarrow> l)"

text \<open>
  Body of the loop over \<^verbatim>\<open>Object.entries(ruleSet.rules)\<close>, first for a rule id that is
  not an inherited name.
\<close>

definition mergeRuleOwn :: "path \<Rightarrow> resolvedRuleSet \<Rightarrow> string \<times> rule \<Rightarrow> resolvedRuleSet" where
  "mergeRuleOwn filePath acc entry =
     (case entry of (rid, rule) \<Rightarrow>
       \<lparr>mergedRules = assign rid rule (mergedRules acc),
        sources = assign rid (sourcesOf (sources acc) rid @ [filePath]) (sources acc),
        conflicts =
          (case map_of (mergedRules acc) rid of
             Some existing \<Rightarrow>
               conflicts acc @
                 [\<lparr>ruleId = rid, conflict = ''Rule redefined in '' @ filePath,
                   conflictSources = [firstSource (sources acc) rid, filePath]\<rparr>]
           | None \<Rightarrow> conflicts acc)\<rparr>)"

text \<open>
  For an inherited name, \<^verbatim>\<open>mergedRules[ruleId]\<close> and \<^verbatim>\<open>sources[ruleId]\<close> read the
  inherited member, which is truthy: \<^verbatim>\<open>sources[ruleId] || []\<close> keeps it, and
  \<^verbatim>\<open>sources[ruleId].push(filePath)\<close> throws, since it has no \<open>push\<close>. The exception
  ends \<open>resolveRules\<close>. The same happens at the \<open>push\<close> of the loop over the overrides,
  where \<^verbatim>\<open>!mergedRules[ruleId]\<close> is false for such a name.
\<close>

definition pushTypeError :: error where
  "pushTypeError = TypeError ''sources[ruleId].push is not a function''"

definition mergeRule :: "path \<Rightarrow> resolvedRuleSet \<Rightarrow> string \<times> rule \<Rightarrow> error + resolvedRuleSet" where
  "mergeRule filePath acc entry =
     (if inherited (fst entry) then Inl pushTypeError
      else Inr (mergeRuleOwn filePath acc entry))"

text \<open>Body of the loop over \<^verbatim>\<open>Object.entries(ruleSet.overrides)\<close>, in the same way.\<close>

definition applyOverrideOwn :: "path \<Rightarrow> resolvedRuleSet \<Rightarrow> string \<times> rule \<Rightarrow> resolvedRuleSet" where
  "applyOverrideOwn filePath acc entry =
     (case entry of (rid, override) \<Rightarrow>
       (case map_of (mergedRules acc) rid of
          None \<Rightarrow>
            acc\<lparr>conflicts := conflicts acc @
              [\<lparr>ruleId = rid, conflict = ''Override for non-existent rule in '' @ filePath,
                conflictSources = [filePath]\<rparr>]\<rparr>
        | Some existing \<Rightarrow>
            acc\<lparr>mergedRules := assign rid (spread existing override) (mergedRules acc),
                sources := assign rid
                  (sourcesOf (sources acc) rid @ [filePath @ '' (override)'']) (sources acc)\<rparr>))"

definition applyOverride :: "path \<Rightarrow> resolvedRuleSet \<Rightarrow> string \<times> rule \<Rightarrow> error + resolvedRuleSet" where
  "applyOverride filePath acc entry =
     (if inherited (fst entry) then Inl pushTypeError
      else Inr (applyOverrideOwn filePath acc entry))"

text \<open>A \<^verbatim>\<open>for\<close> loop whose body may throw.\<close>

fun forEach :: "('s \<Rightarrow> 'a \<Rightarrow> error + 's) \<Rightarrow> 's \<Rightarrow> 'a list \<Rightarrow> error + 's" where
  "forEach body s [] = Inr s"
| "forEach body s (x # xs) =
     (case body s x of Inl e \<Rightarrow> Inl e | Inr s' \<Rightarrow> forEach body s' xs)"

text \<open>One iteration of \<^verbatim>\<open>for (const filePath of chain)\<close>, after the file is loaded.\<close>

definition mergeFile :: "path \<Rightarrow> ruleSet \<Rightarrow> resolvedRuleSet \<Rightarrow> error + resolvedRuleSet" where
  "mergeFile filePath ruleSet acc =
     (case forEach (mergeRule filePath) acc (entries (rules ruleSet)) of
        Inl e \<Rightarrow> Inl e
      | Inr merged \<Rightarrow> forEach (applyOverride filePath) merged (entries (overrides ruleSet)))"

fun mergeChain :: "fileSystem \<Rightarrow> path list \<Rightarrow> resolvedRuleSet \<Rightarrow> error + resolvedRuleSet" where
  "mergeChain fs [] acc = Inr acc"
| "mergeChain fs (filePath # rest) acc =
     (case loadRuleSet fs filePath of
        Inl e \<Rightarrow> Inl e
      | Inr ruleSet \<Rightarrow>
          (case mergeFile filePath ruleSet acc of
             Inl e \<Rightarrow> Inl e
           | Inr acc' \<Rightarrow> mergeChain fs rest acc'))"

definition resolveRules :: "resolver \<Rightarrow> fileSystem \<Rightarrow> path \<Rightarrow> error + resolvedRuleSet" where
  "resolveRules rp fs ruleSetPath =
     (case resolveInheritanceChain rp fs ruleSetPath {} of
        Inl e \<Rightarrow> Inl e
      | Inr chain \<Rightarrow> mergeChain fs chain emptyResolved)"

text \<open>
  Notions for the statements and proofs. \<open>ownIds\<close>: no rule id and no override id of a
  document is an inherited name. \<open>mergeFileOwn\<close>: what \<open>mergeFile\<close> returns for such a
  document (lemma \<open>mergeFile_own\<close>). \<open>definesRule\<close>: the file loads and its \<open>rules\<close> have
  the id.
\<close>

definition ownIds :: "ruleSet \<Rightarrow> bool" where
  "ownIds ruleSet \<longleftrightarrow>
     (\<forall>k\<in>fst ` set (entries (rules ruleSet)) \<union> fst ` set (entries (overrides ruleSet)).
        \<not> inherited k)"

definition mergeFileOwn :: "path \<Rightarrow> ruleSet \<Rightarrow> resolvedRuleSet \<Rightarrow> resolvedRuleSet" where
  "mergeFileOwn filePath ruleSet acc =
     foldl (applyOverrideOwn filePath)
       (foldl (mergeRuleOwn filePath) acc (entries (rules ruleSet)))
       (entries (overrides ruleSet))"

definition definesRule :: "fileSystem \<Rightarrow> string \<Rightarrow> path \<Rightarrow> bool" where
  "definesRule fs rid f =
     (case loadRuleSet fs f of
        Inl e \<Rightarrow> False
      | Inr ruleSet \<Rightarrow> rid \<in> fst ` set (entries (rules ruleSet)))"

text \<open>
  For the statements, written from the specification and not from the code. A rule
  shallow-patched by an override: each field the override has is the override's, each
  other field is the rule's.
\<close>

definition spec_shallow_patch :: "rule \<Rightarrow> rule \<Rightarrow> rule" where
  "spec_shallow_patch r patch =
     \<lparr>id_r = (if id_r patch \<noteq> None then id_r patch else id_r r),
      name = (if name patch \<noteq> None then name patch else name r),
      description = (if description patch \<noteq> None then description patch else description r),
      category = (if category patch \<noteq> None then category patch else category r),
      severity = (if severity patch \<noteq> None then severity patch else severity r),
      enabled = (if enabled patch \<noteq> None then enabled patch else enabled r),
      rationale = (if rationale patch \<noteq> None then rationale patch else rationale r),
      examples = (if examples patch \<noteq> None then examples patch else examples r),
      validation_r = (if validation_r patch \<noteq> None then validation_r patch
                      else validation_r r),
      reason = (if reason patch \<noteq> None then reason patch else reason r)\<rparr>"



text \<open>A rule has its three required fields when each is there and not empty.\<close>

definition spec_required_fields :: "rule \<Rightarrow> bool" where
  "spec_required_fields r \<longleftrightarrow>
     name r \<noteq> None \<and> name r \<noteq> Some [] \<and> description r \<noteq> None \<and> description r \<noteq> Some []
     \<and> severity r \<noteq> None \<and> severity r \<noteq> Some []"

text \<open>
  Two notions for the proofs. \<open>inStep\<close>: the objects \<open>mergedRules\<close> and \<open>sources\<close>
  have the same keys and no source list is empty. \<open>firstDefinedIn acc rid f\<close>: the
  accumulator has the rule and \<open>f\<close> is the first entry of its source list.
\<close>

definition inStep :: "resolvedRuleSet \<Rightarrow> bool" where
  "inStep acc \<longleftrightarrow>
     (\<forall>rid. (map_of (mergedRules acc) rid = None \<longleftrightarrow> map_of (sources acc) rid = None)
            \<and> map_of (sources acc) rid \<noteq> Some [])"

definition firstDefinedIn :: "resolvedRuleSet \<Rightarrow> string \<Rightarrow> path \<Rightarrow> bool" where
  "firstDefinedIn acc rid f \<longleftrightarrow>
     map_of (mergedRules acc) rid \<noteq> None
     \<and> (\<exists>rest. map_of (sources acc) rid = Some (f # rest))"

section \<open>Effective rules\<close>

text \<open>The table \<^verbatim>\<open>severityOrder\<close>; a key it does not have reads as \<^verbatim>\<open>undefined\<close>.\<close>

definition severityOrder :: "string \<Rightarrow> nat option" where
  "severityOrder s =
     (if s = ''CRITICAL'' then Some 0
      else if s = ''HIGH'' then Some 1
      else if s = ''MEDIUM'' then Some 2
      else if s = ''LOW'' then Some 3
      else None)"

definition severityRank :: "rule \<Rightarrow> nat option" where
  "severityRank r = (case severity r of None \<Rightarrow> None | Some s \<Rightarrow> severityOrder s)"

text \<open>
  The comparator \<^verbatim>\<open>severityOrder[a.severity] - severityOrder[b.severity]\<close>;
  \<open>None\<close> is \<^verbatim>\<open>NaN\<close>, the difference when a rank is \<^verbatim>\<open>undefined\<close>.
\<close>

definition compareSeverity :: "rule \<Rightarrow> rule \<Rightarrow> int option" where
  "compareSeverity a b =
     (case (severityRank a, severityRank b) of
        (Some m, Some n) \<Rightarrow> Some (int m - int n)
      | _ \<Rightarrow> None)"

text \<open>
  \<^verbatim>\<open>Array.prototype.sort\<close> is stable and reads a comparator result of \<^verbatim>\<open>NaN\<close> as
  \<open>0\<close>. With a consistent comparator the result is the one stable arrangement, which
  insertion from the right computes: an element moves past exactly the elements it
  compares greater than. When some severity is outside the table the comparator is not
  consistent and the order the engine produces is implementation-defined; the model
  then gives one admissible order.
\<close>

definition comparesGreater :: "int option \<Rightarrow> bool" where
  "comparesGreater v = (case v of None \<Rightarrow> False | Some d \<Rightarrow> 0 < d)"

fun insertSorted :: "('a \<Rightarrow> 'a \<Rightarrow> int option) \<Rightarrow> 'a \<Rightarrow> 'a list \<Rightarrow> 'a list" where
  "insertSorted cmp x [] = [x]"
| "insertSorted cmp x (y # ys) =
     (if comparesGreater (cmp x y) then y # insertSorted cmp x ys else x # y # ys)"

definition sortStable :: "('a \<Rightarrow> 'a \<Rightarrow> int option) \<Rightarrow> 'a list \<Rightarrow> 'a list" where
  "sortStable cmp xs = foldr (insertSorted cmp) xs []"

text \<open>\<^verbatim>\<open>rule => rule.enabled\<close>\<close>

definition isEnabled :: "rule \<Rightarrow> bool" where
  "isEnabled r = (enabled r = Some True)"

text \<open>\<^verbatim>\<open>Object.values(rules).filter(...).sort(...)\<close>\<close>

definition effectiveOf :: "(string \<times> rule) list \<Rightarrow> rule list" where
  "effectiveOf merged = sortStable compareSeverity (filter isEnabled (map snd merged))"

definition getEffectiveRules :: "resolver \<Rightarrow> fileSystem \<Rightarrow> path \<Rightarrow> error + rule list" where
  "getEffectiveRules rp fs ruleSetPath =
     (case resolveRules rp fs ruleSetPath of
        Inl e \<Rightarrow> Inl e
      | Inr resolved \<Rightarrow> Inr (effectiveOf (mergedRules resolved)))"

text \<open>
  For the statements, written from the specification and not from the code: the four
  severity literals and their ranks \<open>CRITICAL(0) < HIGH(1) < MEDIUM(2) < LOW(3)\<close>; and
  the merge-encounter order of a list of rule ids, which keeps each id where it is met
  first (\<open>seen\<close> are the ids met before).
\<close>

definition spec_severity_literal :: "rule \<Rightarrow> bool" where
  "spec_severity_literal r \<longleftrightarrow>
     severity r = Some ''CRITICAL'' \<or> severity r = Some ''HIGH''
     \<or> severity r = Some ''MEDIUM'' \<or> severity r = Some ''LOW''"

definition spec_severity_rank :: "rule \<Rightarrow> nat" where
  "spec_severity_rank r =
     (if severity r = Some ''CRITICAL'' then 0
      else if severity r = Some ''HIGH'' then 1
      else if severity r = Some ''MEDIUM'' then 2
      else 3)"

fun spec_encounter_order :: "string set \<Rightarrow> string list \<Rightarrow> string list" where
  "spec_encounter_order seen [] = []"
| "spec_encounter_order seen (k # ks) =
     (if k \<in> seen then spec_encounter_order seen ks
      else k # spec_encounter_order (insert k seen) ks)"

text \<open>The rule ids a file of the chain defines, in the order of its \<open>rules\<close> object.\<close>

definition ruleIdsOf :: "fileSystem \<Rightarrow> path \<Rightarrow> string list" where
  "ruleIdsOf fs f =
     (case loadRuleSet fs f of
        Inl e \<Rightarrow> []
      | Inr ruleSet \<Rightarrow> map fst (entries (rules ruleSet)))"

section \<open>Validation\<close>

text \<open>\<^verbatim>\<open>String.prototype.includes\<close>\<close>

fun startsWith :: "string \<Rightarrow> string \<Rightarrow> bool" where
  "startsWith s [] = True"
| "startsWith [] (c # cs) = False"
| "startsWith (d # ds) (c # cs) = (d = c \<and> startsWith ds cs)"

fun strIncludes :: "string \<Rightarrow> string \<Rightarrow> bool" where
  "strIncludes [] sub = (sub = [])"
| "strIncludes (d # ds) sub = (startsWith (d # ds) sub \<or> strIncludes ds sub)"

text \<open>Truthiness of an optional string: present and not empty.\<close>

definition truthy :: "string option \<Rightarrow> bool" where
  "truthy v = (case v of None \<Rightarrow> False | Some s \<Rightarrow> s \<noteq> [])"

record validationReport =
  valid :: bool
  errors :: "string list"
  warnings :: "string list"

text \<open>
  The loop over \<open>conflicts\<close> pushes each message to \<open>errors\<close> or to \<open>warnings\<close>; each
  list holds its messages in the order of \<open>conflicts\<close>.
\<close>

definition isDangling :: "conflictEntry \<Rightarrow> bool" where
  "isDangling c = strIncludes (conflict c) ''non-existent''"

definition conflictErrors :: "conflictEntry list \<Rightarrow> string list" where
  "conflictErrors cs = map conflict (filter isDangling cs)"

definition conflictWarnings :: "conflictEntry list \<Rightarrow> string list" where
  "conflictWarnings cs = map conflict (filter (\<lambda>c. \<not> isDangling c) cs)"


text \<open>The loop over \<^verbatim>\<open>Object.keys(rules)\<close> with the set \<open>seenIds\<close>.\<close>

fun duplicateErrors :: "string list \<Rightarrow> string list \<Rightarrow> string list" where
  "duplicateErrors [] seenIds = []"
| "duplicateErrors (rid # rest) seenIds =
     (if rid \<in> set seenIds then [''Duplicate rule ID: '' @ rid] else [])
       @ duplicateErrors rest (rid # seenIds)"

definition requiredFieldErrors :: "string \<times> rule \<Rightarrow> string list" where
  "requiredFieldErrors entry =
     (case entry of (rid, r) \<Rightarrow>
        (if \<not> truthy (name r) then [''Rule '' @ rid @ '' missing required field: name''] else [])
      @ (if \<not> truthy (description r)
           then [''Rule '' @ rid @ '' missing required field: description''] else [])
      @ (if \<not> truthy (severity r)
           then [''Rule '' @ rid @ '' missing required field: severity''] else []))"

text \<open>\<open>validateRules\<close> after its call of \<open>resolveRules\<close>.\<close>

definition validateResolved :: "resolvedRuleSet \<Rightarrow> validationReport" where
  "validateResolved resolved =
     (let errs = conflictErrors (conflicts resolved)
               @ duplicateErrors (map fst (mergedRules resolved)) []
               @ concat (map requiredFieldErrors (mergedRules resolved))
      in \<lparr>valid = (length errs = 0), errors = errs,
          warnings = conflictWarnings (conflicts resolved)\<rparr>)"

definition validateRules :: "resolver \<Rightarrow> fileSystem \<Rightarrow> path \<Rightarrow> error + validationReport" where
  "validateRules rp fs ruleSetPath =
     (case resolveRules rp fs ruleSetPath of
        Inl e \<Rightarrow> Inl e
      | Inr resolved \<Rightarrow> Inr (validateResolved resolved))"

subsection \<open>The command-line validator\<close>

text \<open>
  \<open>validateConstitutionalRules\<close> of \<^verbatim>\<open>cli/validate.ts\<close> calls \<open>validateRules\<close> and
  \<open>resolveRules\<close> and adds checks of its own. The \<open>info\<close> part of its result (counts
  and breakdowns) does not feed \<open>valid\<close>, \<open>errors\<close> or \<open>warnings\<close> and is left out.
\<close>

text \<open>\<^verbatim>\<open>error.message\<close> of the exceptions the resolver throws.\<close>

definition errorMessage :: "error \<Rightarrow> string" where
  "errorMessage e =
     (case e of
        FileNotFound p \<Rightarrow> ''Rule set file not found: '' @ p
      | InvalidJson msg \<Rightarrow> msg
      | CircularDependency p \<Rightarrow> ''Circular dependency detected: '' @ p
      | TypeError msg \<Rightarrow> msg)"

text \<open>\<^verbatim>\<open>conflict.sources.join(', ')\<close>\<close>

fun joinWith :: "string \<Rightarrow> string list \<Rightarrow> string" where
  "joinWith sep [] = []"
| "joinWith sep [x] = x"
| "joinWith sep (x # y # ys) = x @ sep @ joinWith sep (y # ys)"

definition allowedSeverities :: "string list" where
  "allowedSeverities = [''CRITICAL'', ''HIGH'', ''MEDIUM'', ''LOW'']"

text \<open>The apostrophe of the messages below.\<close>

definition apostrophe :: string where
  "apostrophe = [CHR 0x27]"

definition cliConflictWarnings :: "conflictEntry list \<Rightarrow> string list" where
  "cliConflictWarnings cs =
     map (\<lambda>c. conflict c @ '' (sources: '' @ joinWith '', '' (conflictSources c) @ '')'')
       (filter (\<lambda>c. \<not> isDangling c) cs)"

definition missingField :: "string \<Rightarrow> string \<Rightarrow> string" where
  "missingField rid field =
     ''Rule '' @ rid @ '': missing required field '' @ apostrophe @ field @ apostrophe"

definition cliRuleErrors :: "string \<times> rule \<Rightarrow> string list" where
  "cliRuleErrors entry =
     (case entry of (rid, r) \<Rightarrow>
        (if \<not> truthy (name r) then [missingField rid ''name''] else [])
      @ (if \<not> truthy (description r) then [missingField rid ''description''] else [])
      @ (if \<not> truthy (category r) then [missingField rid ''category''] else [])
      @ (if \<not> truthy (severity r) then [missingField rid ''severity''] else [])
      @ (case severity r of
           None \<Rightarrow> []
         | Some s \<Rightarrow>
             if s \<noteq> [] \<and> s \<notin> set allowedSeverities
             then [''Rule '' @ rid @ '': invalid severity '' @ apostrophe @ s @ apostrophe
                   @ '' (must be CRITICAL, HIGH, MEDIUM, or LOW)'']
             else []))"

definition cliRuleWarnings :: "string \<times> rule \<Rightarrow> string list" where
  "cliRuleWarnings entry =
     (case entry of (rid, r) \<Rightarrow>
        (if examples r = Some []
           then [''Rule '' @ rid
                 @ '': has empty examples array (consider removing or adding examples)'']
           else [])
      @ (case validation_r r of
           None \<Rightarrow> []
         | Some v \<Rightarrow>
             if automatable v = Some True \<and> \<not> truthy (scriptPath v)
             then [''Rule '' @ rid @ '': marked as automatable but no scriptPath provided'']
             else []))"

text \<open>Steps 3 to 5, inside the \<^verbatim>\<open>try\<close> block, for a rules file that exists and parses.\<close>

definition validateResolvedPath :: "resolver \<Rightarrow> fileSystem \<Rightarrow> path \<Rightarrow> validationReport" where
  "validateResolvedPath rp fs rulesPath =
     (case validateRules rp fs rulesPath of
        Inl e \<Rightarrow>
          \<lparr>valid = False, errors = [''Error resolving rules: '' @ errorMessage e],
           warnings = []\<rparr>
      | Inr validation \<Rightarrow>
          (let errs0 = (if \<not> valid validation then errors validation else []);
               warns0 = warnings validation
           in case resolveRules rp fs rulesPath of
                Inl e \<Rightarrow>
                  \<lparr>valid = False,
                   errors = errs0 @ [''Error resolving rules: '' @ errorMessage e],
                   warnings = warns0\<rparr>
              | Inr resolved \<Rightarrow>
                  (let errs = errs0 @ conflictErrors (conflicts resolved)
                            @ concat (map cliRuleErrors (mergedRules resolved));
                       warns = warns0 @ cliConflictWarnings (conflicts resolved)
                            @ concat (map cliRuleWarnings (mergedRules resolved))
                   in \<lparr>valid = (length errs = 0), errors = errs, warnings = warns\<rparr>)))"

text \<open>
  Steps 1 and 2 and the rest. \<open>found\<close> is what \<open>getConstitutionalRulesPath()\<close> returns
  (a collaborator outside the resolver), \<open>rulesFilePath\<close> the optional argument.
  \<open>readAndParse\<close> is step 2: reading a file that is not there throws as well, and the
  message is then the system's.
\<close>

definition readAndParse :: "resolver \<Rightarrow> fileSystem \<Rightarrow> path \<Rightarrow> validationReport" where
  "readAndParse rp fs rulesPath =
     (case map_of fs rulesPath of
        None \<Rightarrow>
          \<lparr>valid = False,
           errors = [''Invalid JSON syntax: ENOENT: no such file or directory, open ''
                     @ apostrophe @ rulesPath @ apostrophe],
           warnings = []\<rparr>
      | Some (BadJson msg) \<Rightarrow>
          \<lparr>valid = False, errors = [''Invalid JSON syntax: '' @ msg], warnings = []\<rparr>
      | Some (Doc d) \<Rightarrow> validateResolvedPath rp fs rulesPath)"

definition noRulesFile :: validationReport where
  "noRulesFile =
     \<lparr>valid = True, errors = [],
      warnings = [''No constitutional rules file found (this is okay, will use empty rule set)'']\<rparr>"

definition validateConstitutionalRules ::
    "resolver \<Rightarrow> fileSystem \<Rightarrow> path option \<Rightarrow> path option \<Rightarrow> validationReport" where
  "validateConstitutionalRules rp fs found rulesFilePath =
     (case (if truthy rulesFilePath then rulesFilePath else None) of
        Some rulesPath \<Rightarrow>
          if map_of fs rulesPath = None
          then \<lparr>valid = False,
                errors = [''Specified rules file not found: '' @ rulesPath],
                warnings = []\<rparr>
          else readAndParse rp fs rulesPath
      | None \<Rightarrow>
          (case (if truthy found then found else None) of
             None \<Rightarrow> noRulesFile
           | Some rulesPath \<Rightarrow> readAndParse rp fs rulesPath))"

section \<open>Rules as strings\<close>

text \<open>
  \<open>loadConstitutionalRules\<close> and \<open>rulesToStrings\<close> of \<^verbatim>\<open>utils/constitutionalRules.ts\<close>.
  The path that \<open>getConstitutionalRulesPath()\<close> finds (from the environment and the
  disk) is a parameter. Strings are byte lists, so the severity icons are their UTF-8
  bytes; a template that prints an absent field prints \<^verbatim>\<open>undefined\<close>.
\<close>

definition loadConstitutionalRules :: "resolver \<Rightarrow> fileSystem \<Rightarrow> path option \<Rightarrow> rule list" where
  "loadConstitutionalRules rp fs found =
     (case (if truthy found then found else None) of
        None \<Rightarrow> []
      | Some rulesPath \<Rightarrow>
          (case getEffectiveRules rp fs rulesPath of
             Inl e \<Rightarrow> []
           | Inr effectiveRules \<Rightarrow> effectiveRules))"

definition severityIcon :: "string option \<Rightarrow> string" where
  "severityIcon s =
     (if s = Some ''CRITICAL'' then [CHR 0xF0, CHR 0x9F, CHR 0x9A, CHR 0xA8]
      else if s = Some ''HIGH'' then [CHR 0xE2, CHR 0x9A, CHR 0xA0, CHR 0xEF, CHR 0xB8, CHR 0x8F]
      else if s = Some ''MEDIUM'' then [CHR 0xE2, CHR 0x84, CHR 0xB9, CHR 0xEF, CHR 0xB8, CHR 0x8F]
      else [CHR 0xF0, CHR 0x9F, CHR 0x93, CHR 0x9D])"

definition templateText :: "string option \<Rightarrow> string" where
  "templateText v = (case v of None \<Rightarrow> ''undefined'' | Some s \<Rightarrow> s)"

definition ruleToString :: "rule \<Rightarrow> string" where
  "ruleToString r =
     severityIcon (severity r) @ '' ['' @ templateText (category r) @ ''] ''
       @ templateText (name r) @ '': '' @ templateText (description r)
       @ (if truthy (rationale r) then '' | Rationale: '' @ templateText (rationale r) else [])
       @ (case examples r of
            None \<Rightarrow> []
          | Some ex \<Rightarrow>
              if 0 < length ex then '' | Examples: '' @ joinWith ''; '' (take 2 ex) else [])"

definition rulesToStrings :: "rule list \<Rightarrow> string list" where
  "rulesToStrings rs = map ruleToString rs"

definition loadConstitutionalRulesAsStrings ::
    "resolver \<Rightarrow> fileSystem \<Rightarrow> path option \<Rightarrow> string list" where
  "loadConstitutionalRulesAsStrings rp fs found =
     rulesToStrings (loadConstitutionalRules rp fs found)"

section \<open>Session constitution store\<close>

text \<open>
  \<^verbatim>\<open>tools/constitution.ts\<close>. The module-level \<open>constitutionMap\<close> is passed in and
  returned; \<^verbatim>\<open>Date.now()\<close> is the argument \<open>now\<close> (milliseconds), one reading per
  operation. The field \<open>rules\<close> of \<^verbatim>\<open>ConstitutionEntry\<close> is \<open>sessionRules\<close> here, since
  a document has a field \<open>rules\<close> already. What the store reads from outside (the
  path resolver, the files and the rules path found) is the record \<open>environment\<close>.
\<close>

record constitutionEntry =
  sessionRules :: "string list"
  fileLoaded :: bool
  updated :: int

type_synonym constitutionStore = "string \<rightharpoonup> constitutionEntry"

record environment =
  resolvePath :: resolver
  files :: fileSystem
  rulesPathFound :: "path option"

definition MAX_RULES_PER_SESSION :: nat where
  "MAX_RULES_PER_SESSION = 50"

definition SESSION_TTL_MS :: int where
  "SESSION_TTL_MS = 60 * 60 * 1000"

definition initializeSessionConstitution ::
    "environment \<Rightarrow> int \<Rightarrow> string \<Rightarrow> constitutionStore \<Rightarrow> constitutionStore" where
  "initializeSessionConstitution env now sessionId constitutionMap =
     (case constitutionMap sessionId of
        Some entry \<Rightarrow> constitutionMap
      | None \<Rightarrow>
          if truthy (rulesPathFound env) then
            constitutionMap(sessionId \<mapsto>
              \<lparr>sessionRules = loadConstitutionalRulesAsStrings (resolvePath env) (files env)
                                (rulesPathFound env),
               fileLoaded = True, updated = now\<rparr>)
          else
            constitutionMap(sessionId \<mapsto>
              \<lparr>sessionRules = [], fileLoaded = False, updated = now\<rparr>))"

text \<open>
  In the two functions below the entry is read after initialisation, which has set it
  (lemma \<open>initialize_defined\<close>); the case \<open>None\<close> is there to make the function total.
\<close>

definition updateConstitution ::
    "environment \<Rightarrow> int \<Rightarrow> string \<Rightarrow> string \<Rightarrow> constitutionStore \<Rightarrow> constitutionStore" where
  "updateConstitution env now sessionId rule constitutionMap =
     (if sessionId = [] \<or> rule = [] then constitutionMap
      else
        let m = (if constitutionMap sessionId = None
                 then initializeSessionConstitution env now sessionId constitutionMap
                 else constitutionMap)
        in case m sessionId of
             None \<Rightarrow> m
           | Some entry \<Rightarrow>
               let kept = (if length (sessionRules entry) \<ge> MAX_RULES_PER_SESSION
                           then tl (sessionRules entry) else sessionRules entry)
               in m(sessionId \<mapsto> entry\<lparr>sessionRules := kept @ [rule], updated := now\<rparr>))"

definition resetConstitution ::
    "int \<Rightarrow> string \<Rightarrow> string list \<Rightarrow> constitutionStore \<Rightarrow> constitutionStore" where
  "resetConstitution now sessionId newRules constitutionMap =
     (if sessionId = [] then constitutionMap
      else constitutionMap(sessionId \<mapsto>
             \<lparr>sessionRules = take MAX_RULES_PER_SESSION newRules,
              fileLoaded = False, updated = now\<rparr>))"

definition getConstitution ::
    "environment \<Rightarrow> int \<Rightarrow> string \<Rightarrow> constitutionStore \<Rightarrow> constitutionStore \<times> string list" where
  "getConstitution env now sessionId constitutionMap =
     (let m = (if constitutionMap sessionId = None
               then initializeSessionConstitution env now sessionId constitutionMap
               else constitutionMap)
      in case m sessionId of
           None \<Rightarrow> (m, [])
         | Some entry \<Rightarrow> (m(sessionId \<mapsto> entry\<lparr>updated := now\<rparr>), sessionRules entry))"

definition cleanup :: "int \<Rightarrow> constitutionStore \<Rightarrow> constitutionStore" where
  "cleanup now constitutionMap =
     (\<lambda>sessionId.
        case constitutionMap sessionId of
          None \<Rightarrow> None
        | Some entry \<Rightarrow> if now - updated entry > SESSION_TTL_MS then None else Some entry)"

text \<open>The calls a client or the timer can make, each with the time it is made at.\<close>

datatype operation =
  Get string
  | Update string string
  | Reset string "string list"
  | Cleanup

fun step :: "environment \<Rightarrow> constitutionStore \<Rightarrow> int \<times> operation \<Rightarrow> constitutionStore" where
  "step env m (now, Get sessionId) = fst (getConstitution env now sessionId m)"
| "step env m (now, Update sessionId rule) = updateConstitution env now sessionId rule m"
| "step env m (now, Reset sessionId newRules) = resetConstitution now sessionId newRules m"
| "step env m (now, Cleanup) = cleanup now m"

definition run :: "environment \<Rightarrow> (int \<times> operation) list \<Rightarrow> constitutionStore \<Rightarrow> constitutionStore" where
  "run env ops m = foldl (step env) m ops"

text \<open>
  For the statements: the rule list a session has, or is given on its first access;
  and the push of \<open>updateConstitution\<close> on a list.
\<close>

definition rulesAtStart :: "environment \<Rightarrow> constitutionStore \<Rightarrow> string \<Rightarrow> string list" where
  "rulesAtStart env m sessionId =
     (case m sessionId of
        Some entry \<Rightarrow> sessionRules entry
      | None \<Rightarrow>
          if truthy (rulesPathFound env)
          then loadConstitutionalRulesAsStrings (resolvePath env) (files env) (rulesPathFound env)
          else [])"

definition pushCapped :: "string list \<Rightarrow> string \<Rightarrow> string list" where
  "pushCapped rs rule =
     (if length rs \<ge> MAX_RULES_PER_SESSION then tl rs else rs) @ [rule]"

text \<open>Every entry of the store holds at most \<open>MAX_RULES_PER_SESSION\<close> rules.\<close>

definition withinCapacity :: "constitutionStore \<Rightarrow> bool" where
  "withinCapacity m \<longleftrightarrow>
     (\<forall>sessionId entry. m sessionId = Some entry
        \<longrightarrow> length (sessionRules entry) \<le> MAX_RULES_PER_SESSION)"

section \<open>Example inputs\<close>

text \<open>
  Documents whose \<open>extends\<close> entries are absolute paths: \<^verbatim>\<open>path.resolve\<close> of a
  directory and an absolute path is that path.
\<close>

definition absolutePaths :: resolver where
  "absolutePaths child parent = parent"

definition emptyRule :: rule where
  "emptyRule =
     \<lparr>id_r = None, name = None, description = None, category = None, severity = None,
      enabled = None, rationale = None, examples = None, validation_r = None,
      reason = None\<rparr>"

definition document :: "string list \<Rightarrow> ruleSet" where
  "document parents =
     \<lparr>version = Some ''1.0.0'', extends = Some parents, rules = None, overrides = None\<rparr>"

text \<open>A extends B and C, B extends D.\<close>

definition fsChain :: fileSystem where
  "fsChain =
     [(''/A.json'', Doc (document [''/B.json'', ''/C.json''])),
      (''/B.json'', Doc (document [''/D.json''])),
      (''/C.json'', Doc (document [])),
      (''/D.json'', Doc (document []))]"

text \<open>A extends B and B extends A; then the same files after B is edited to extend nothing.\<close>

definition fsCycle :: fileSystem where
  "fsCycle =
     [(''/A.json'', Doc (document [''/B.json''])),
      (''/B.json'', Doc (document [''/A.json'']))]"

definition fsEdited :: fileSystem where
  "fsEdited =
     [(''/A.json'', Doc (document [''/B.json''])),
      (''/B.json'', Doc (document []))]"

text \<open>
  A base document defining \<open>r1\<close>, and a project document that extends it, redefines
  \<open>r1\<close> and overrides \<open>r1\<close> as well.
\<close>

definition baseRule :: rule where
  "baseRule = emptyRule\<lparr>name := Some ''Base'', description := Some ''from the base layer'',
       category := Some ''testing'', severity := Some ''LOW'', enabled := Some True\<rparr>"

definition projectRule :: rule where
  "projectRule = emptyRule\<lparr>name := Some ''Project'', description := Some ''from the project'',
       category := Some ''testing'', severity := Some ''HIGH'', enabled := Some True\<rparr>"

definition disable :: rule where
  "disable = emptyRule\<lparr>enabled := Some False, reason := Some ''not used here''\<rparr>"

definition baseDoc :: ruleSet where
  "baseDoc = \<lparr>version = Some ''1.0.0'', extends = None,
       rules = Some [(''r1'', baseRule)], overrides = None\<rparr>"

definition projectDoc :: ruleSet where
  "projectDoc = \<lparr>version = Some ''1.0.0'', extends = Some [''/base.json''],
       rules = Some [(''r1'', projectRule)], overrides = Some [(''r1'', disable)]\<rparr>"

definition fsOverride :: fileSystem where
  "fsOverride = [(''/base.json'', Doc baseDoc), (''/project.json'', Doc projectDoc)]"

text \<open>
  Four layers: \<open>root\<close>, \<open>base\<close> extending it, the project document extending \<open>base\<close>, and
  \<open>top\<close> extending the project document. Each defines \<open>r1\<close>.
\<close>

definition topRule :: rule where
  "topRule = emptyRule\<lparr>name := Some ''Top'', description := Some ''from the top layer'',
       category := Some ''testing'', severity := Some ''MEDIUM'', enabled := Some True\<rparr>"

definition fsLayers :: fileSystem where
  "fsLayers =
     [(''/root.json'', Doc baseDoc),
      (''/base.json'', Doc (baseDoc\<lparr>extends := Some [''/root.json'']\<rparr>)),
      (''/project.json'', Doc projectDoc),
      (''/top.json'', Doc \<lparr>version = Some ''1.0.0'', extends = Some [''/project.json''],
                          rules = Some [(''r1'', topRule)], overrides = None\<rparr>)]"

text \<open>A document that overrides the rule \<open>ghost\<close>, which nothing defines.\<close>

definition danglingDoc :: ruleSet where
  "danglingDoc = \<lparr>version = Some ''1.0.0'', extends = None,
       rules = Some [(''r1'', baseRule)], overrides = Some [(''ghost'', disable)]\<rparr>"



definition fsInherited :: fileSystem where
  "fsInherited =
     [(''/rules.json'', Doc (danglingDoc\<lparr>overrides := Some [(''toString'', disable)]\<rparr>))]"

text \<open>The base and project documents again, in a directory named \<open>non-existent\<close>.\<close>

definition fsOddPath :: fileSystem where
  "fsOddPath =
     [(''/non-existent/base.json'', Doc baseDoc),
      (''/non-existent/project.json'',
        Doc (projectDoc\<lparr>extends := Some [''/non-existent/base.json'']\<rparr>))]"

text \<open>
  A merged rule set with the severities \<open>MEDIUM, CRITICAL, LOW, HIGH, HIGH, CRITICAL\<close>,
  the fifth rule disabled.
\<close>

definition ruleWith :: "string \<Rightarrow> string \<Rightarrow> bool \<Rightarrow> rule" where
  "ruleWith n s e =
     emptyRule\<lparr>name := Some n, description := Some ''text'', category := Some ''general'',
       severity := Some s, enabled := Some e\<rparr>"

definition mergedExample :: "(string \<times> rule) list" where
  "mergedExample =
     [(''rule-a'', ruleWith ''first'' ''MEDIUM'' True),
      (''rule-b'', ruleWith ''second'' ''CRITICAL'' True),
      (''rule-c'', ruleWith ''third'' ''LOW'' True),
      (''rule-d'', ruleWith ''fourth'' ''HIGH'' True),
      (''rule-e'', ruleWith ''fifth'' ''HIGH'' False),
      (''rule-f'', ruleWith ''sixth'' ''CRITICAL'' True)]"

text \<open>
  The six rules in two files: the base document has the first three, the project
  document, which extends it, the other three.
\<close>

definition fsEffective :: fileSystem where
  "fsEffective =
     [(''/base.json'',
        Doc \<lparr>version = Some ''1.0.0'', extends = None,
             rules = Some (take 3 mergedExample), overrides = None\<rparr>),
      (''/project.json'',
        Doc \<lparr>version = Some ''1.0.0'', extends = Some [''/base.json''],
             rules = Some (drop 3 mergedExample), overrides = None\<rparr>)]"

text \<open>Two files whose rule ids are numbers: the base has \<open>2\<close>, the project \<open>1\<close>.\<close>

definition fsNumbered :: fileSystem where
  "fsNumbered =
     [(''/base.json'',
        Doc \<lparr>version = Some ''1.0.0'', extends = None,
             rules = Some [(''2'', ruleWith ''met first'' ''HIGH'' True)], overrides = None\<rparr>),
      (''/project.json'',
        Doc \<lparr>version = Some ''1.0.0'', extends = Some [''/base.json''],
             rules = Some [(''1'', ruleWith ''met second'' ''HIGH'' True)],
             overrides = None\<rparr>)]"

text \<open>A document whose one rule has the severity \<open>URGENT\<close>.\<close>

definition urgentDoc :: ruleSet where
  "urgentDoc = \<lparr>version = Some ''1.0.0'', extends = None,
       rules = Some [(''r1'', ruleWith ''first'' ''URGENT'' True)], overrides = None\<rparr>"

definition fsUrgent :: fileSystem where
  "fsUrgent = [(''/rules.json'', Doc urgentDoc)]"

definition resolvedUrgent :: resolvedRuleSet where
  "resolvedUrgent =
     \<lparr>mergedRules = [(''r1'', ruleWith ''first'' ''URGENT'' True)],
      sources = [(''r1'', [''/rules.json''])], conflicts = []\<rparr>"

text \<open>
  A document with two faulty rules: \<open>r1\<close> has the severity \<open>URGENT\<close>, and \<open>r2\<close> has no
  name, an empty description and no severity.
\<close>

definition namelessRule :: rule where
  "namelessRule = emptyRule\<lparr>description := Some [], category := Some ''general'',
       enabled := Some True\<rparr>"

definition fsFaulty :: fileSystem where
  "fsFaulty =
     [(''/rules.json'',
        Doc \<lparr>version = Some ''1.0.0'', extends = None,
             rules = Some [(''r1'', ruleWith ''first'' ''URGENT'' True), (''r2'', namelessRule)],
             overrides = None\<rparr>)]"

text \<open>
  An environment without a rules file, and a store with one session last touched at
  time 0 and one at 3000000 ms.
\<close>

definition envNoFile :: environment where
  "envNoFile = \<lparr>resolvePath = absolutePaths, files = [], rulesPathFound = None\<rparr>"


text \<open>Fifty-one rule strings; and fifty-one of which the second is empty.\<close>

definition fiftyOne :: "string list" where
  "fiftyOne = ''first'' # replicate 50 ''later''"

definition withEmpty :: "string list" where
  "withEmpty = ''first'' # [] # replicate 49 ''later''"

text \<open>A rules file with \<open>n\<close> enabled rules \<open>r\<close>, \<open>rr\<close>, \<open>rrr\<close> and so on.\<close>

definition manyRules :: "nat \<Rightarrow> (string \<times> rule) list" where
  "manyRules n = map (\<lambda>i. (replicate (Suc i) (CHR ''r''), ruleWith ''rule'' ''HIGH'' True)) [0..<n]"

definition manyDoc :: "nat \<Rightarrow> ruleSet" where
  "manyDoc n = \<lparr>version = Some ''1.0.0'', extends = None,
       rules = Some (manyRules n), overrides = None\<rparr>"

definition envMany :: "nat \<Rightarrow> environment" where
  "envMany n =
     \<lparr>resolvePath = absolutePaths, files = [(''/rules.json'', Doc (manyDoc n))],
      rulesPathFound = Some ''/rules.json''\<rparr>"

text \<open>
  A diamond: A extends B and C, both extend D, and D defines \<open>r1\<close>. Then a deeper one,
  in which D extends E and both E and D define \<open>r1\<close>.
\<close>

definition fsDiamond :: fileSystem where
  "fsDiamond =
     [(''/A.json'', Doc (document [''/B.json'', ''/C.json''])),
      (''/B.json'', Doc (document [''/D.json''])),
      (''/C.json'', Doc (document [''/D.json''])),
      (''/D.json'', Doc baseDoc)]"

definition fsDeep :: fileSystem where
  "fsDeep =
     [(''/A.json'', Doc (document [''/B.json'', ''/C.json''])),
      (''/B.json'', Doc (document [''/D.json''])),
      (''/C.json'', Doc (document [''/D.json''])),
      (''/D.json'', Doc \<lparr>version = Some ''1.0.0'', extends = Some [''/E.json''],
                        rules = Some [(''r1'', projectRule)], overrides = None\<rparr>),
      (''/E.json'', Doc baseDoc)]"

text \<open>The depth of a document of the two diamonds, to show that they have no cycle.\<close>

definition depthOf :: "path \<Rightarrow> nat" where
  "depthOf p =
     (if p = ''/A.json'' then 4
      else if p = ''/B.json'' \<or> p = ''/C.json'' then 3
      else if p = ''/D.json'' then 2
      else if p = ''/E.json'' then 1
      else 0)"

section \<open>Properties of the inheritance chain\<close>

lemma resolve_cycle:
  "p \<in> visited \<Longrightarrow> resolveInheritanceChain rp fs p visited = Inl (CircularDependency p)"
  by (simp add: resolveInheritanceChain.simps)

lemma resolve_load_error:
  "p \<notin> visited \<Longrightarrow> loadRuleSet fs p = Inl e
     \<Longrightarrow> resolveInheritanceChain rp fs p visited = Inl e"
  by (simp add: resolveInheritanceChain.simps)

lemma resolve_leaf:
  "p \<notin> visited \<Longrightarrow> loadRuleSet fs p = Inr rs \<Longrightarrow> noExtends rs
     \<Longrightarrow> resolveInheritanceChain rp fs p visited = Inr [p]"
  by (simp add: resolveInheritanceChain.simps)

lemma resolve_node:
  "p \<notin> visited \<Longrightarrow> loadRuleSet fs p = Inr rs \<Longrightarrow> \<not> noExtends rs
     \<Longrightarrow> resolveInheritanceChain rp fs p visited =
        (case resolveParents rp fs p (extendsList rs) (insert p visited) [] of
           Inl e \<Rightarrow> Inl e
         | Inr chain \<Rightarrow> Inr (chain @ [p]))"
  by (simp add: resolveInheritanceChain.simps)

text \<open>
  C1. A document A extends [B, C], B extends [D], and C and D extend nothing; all four
  files load. Then the chain of A, resolved from the empty visited set, is
  [D, B, C, A]: the chain of each parent in declared order, then A itself.
\<close>

theorem chain_order:
  assumes A: "loadRuleSet fs A = Inr docA" and eA: "extends docA = Some [b, c]"
    and B: "loadRuleSet fs (rp A b) = Inr docB" and eB: "extends docB = Some [d]"
    and C: "loadRuleSet fs (rp A c) = Inr docC" and eC: "noExtends docC"
    and D: "loadRuleSet fs (rp (rp A b) d) = Inr docD" and eD: "noExtends docD"
  shows "resolveInheritanceChain rp fs A {} = Inr [rp (rp A b) d, rp A b, rp A c, A]"
proof -
  have nA: "\<not> noExtends docA" and lA: "extendsList docA = [b, c]"
    using eA by (simp_all add: noExtends_def extendsList_def)
  have nB: "\<not> noExtends docB" and lB: "extendsList docB = [d]"
    using eB by (simp_all add: noExtends_def extendsList_def)
  have BA: "rp A b \<noteq> A" using A B eA eB by auto
  have CA: "rp A c \<noteq> A" using A C nA eC by auto
  have DA: "rp (rp A b) d \<noteq> A" using A D nA eD by auto
  have DB: "rp (rp A b) d \<noteq> rp A b" using B D nB eD by auto
  have rD: "resolveInheritanceChain rp fs (rp (rp A b) d) {rp A b, A} = Inr [rp (rp A b) d]"
    using DA DB by (intro resolve_leaf [OF _ D eD]) simp
  have rB: "resolveInheritanceChain rp fs (rp A b) {A} = Inr [rp (rp A b) d, rp A b]"
    using BA rD by (subst resolve_node [OF _ B nB]) (simp_all add: lB)
  have rC: "resolveInheritanceChain rp fs (rp A c) {A} = Inr [rp A c]"
    using CA by (intro resolve_leaf [OF _ C eC]) simp
  show ?thesis
    using rB rC by (subst resolve_node [OF _ A nA]) (simp_all add: lA)
qed

theorem chain_order_witness:
  "resolveInheritanceChain absolutePaths fsChain ''/A.json'' {}
     = Inr [''/D.json'', ''/B.json'', ''/C.json'', ''/A.json'']"
proof -
  have "resolveInheritanceChain absolutePaths fsChain ''/A.json'' {}
      = Inr [absolutePaths (absolutePaths ''/A.json'' ''/B.json'') ''/D.json'',
             absolutePaths ''/A.json'' ''/B.json'', absolutePaths ''/A.json'' ''/C.json'',
             ''/A.json'']"
    by (rule chain_order [where docA = "document [''/B.json'', ''/C.json'']"
          and docB = "document [''/D.json'']" and docC = "document []"
          and docD = "document []"])
       (simp_all add: fsChain_def loadRuleSet_def absolutePaths_def document_def
          noExtends_def)
  then show ?thesis by (simp add: absolutePaths_def)
qed

subsection \<open>Cycles\<close>

lemma noExtends_iff: "noExtends rs \<longleftrightarrow> extendsList rs = []"
  by (simp add: noExtends_def extendsList_def split: option.splits)

lemma resolve_Inr_not_visited:
  "resolveInheritanceChain rp fs p V = Inr c \<Longrightarrow> p \<notin> V"
  by (auto simp: resolve_cycle)


lemma resolveParents_Inl_some:
  "resolveParents rp fs p ps W acc = Inl e
     \<Longrightarrow> \<exists>x\<in>set ps. resolveInheritanceChain rp fs (rp p x) W = Inl e"
  by (induction ps arbitrary: acc) (auto split: sum.splits)




lemma resolve_Inl_origin:
  "resolveInheritanceChain rp fs p V = Inl e \<Longrightarrow>
     (\<exists>x. (p, x) \<in> (extendsRel rp fs)\<^sup>* \<and> loadRuleSet fs x = Inl e)
     \<or> (\<exists>x. e = CircularDependency x \<and> (p, x) \<in> (extendsRel rp fs)\<^sup>*
            \<and> (x \<in> V \<or> (x, x) \<in> (extendsRel rp fs)\<^sup>+))"
proof (induction "card (fst ` set fs - V)" arbitrary: p V rule: less_induct)
  case less
  show ?case
  proof (cases "p \<in> V")
    case True
    then show ?thesis using less.prems by (auto simp: resolve_cycle)
  next
    case nv: False
    show ?thesis
    proof (cases "loadRuleSet fs p")
      case (Inl e')
      then show ?thesis using less.prems nv by (auto simp: resolve_load_error)
    next
      case (Inr rs)
      have ne: "\<not> noExtends rs"
        using less.prems nv Inr by (auto simp: resolve_leaf)
      from less.prems have "resolveParents rp fs p (extendsList rs) (insert p V) [] = Inl e"
        by (auto simp: resolve_node [OF nv Inr ne] split: sum.splits)
      then obtain x where x: "x \<in> set (extendsList rs)"
        and fail: "resolveInheritanceChain rp fs (rp p x) (insert p V) = Inl e"
        by (auto dest: resolveParents_Inl_some)
      have edge: "(p, rp p x) \<in> extendsRel rp fs"
        using Inr x by (auto simp: extendsRel_def)
      have "p \<in> fst ` set fs"
        using Inr by (auto simp: loadRuleSet_def split: option.splits fileContent.splits
            dest: map_of_SomeD intro: rev_image_eqI)
      then have "fst ` set fs - insert p V \<subset> fst ` set fs - V" using nv by auto
      then have "card (fst ` set fs - insert p V) < card (fst ` set fs - V)"
        by (intro psubset_card_mono) auto
      from less.hyps [OF this fail]
      consider (load) y where "(rp p x, y) \<in> (extendsRel rp fs)\<^sup>*" "loadRuleSet fs y = Inl e"
        | (circ) y where "e = CircularDependency y" "(rp p x, y) \<in> (extendsRel rp fs)\<^sup>*"
            "y \<in> insert p V \<or> (y, y) \<in> (extendsRel rp fs)\<^sup>+"
        by blast
      then show ?thesis
      proof cases
        case load
        then show ?thesis using edge by (meson converse_rtrancl_into_rtrancl)
      next
        case circ
        have py: "(p, y) \<in> (extendsRel rp fs)\<^sup>*"
          using edge circ(2) by (rule converse_rtrancl_into_rtrancl)
        show ?thesis
        proof (cases "y = p")
          case True
          have "(p, p) \<in> (extendsRel rp fs)\<^sup>+"
            using edge circ(2) True by (auto intro: rtrancl_into_trancl2)
          then show ?thesis using circ(1) True by blast
        next
          case False
          then show ?thesis using circ py by blast
        qed
      qed
    qed
  qed
qed

lemma resolve_succeeds:
  assumes "\<forall>x. (p, x) \<in> (extendsRel rp fs)\<^sup>* \<longrightarrow> (x, x) \<notin> (extendsRel rp fs)\<^sup>+"
    and "\<forall>x. (p, x) \<in> (extendsRel rp fs)\<^sup>* \<longrightarrow> (\<exists>rs. loadRuleSet fs x = Inr rs)"
  shows "\<exists>chain. resolveInheritanceChain rp fs p {} = Inr chain"
proof (cases "resolveInheritanceChain rp fs p {}")
  case (Inl e)
  from resolve_Inl_origin [OF Inl] assms show ?thesis by auto
next
  case (Inr chain)
  then show ?thesis by blast
qed






text \<open>The two runs of the example, evaluated.\<close>

lemma cycle_example:
  "resolveInheritanceChain absolutePaths fsCycle ''/A.json'' {}
     = Inl (CircularDependency ''/A.json'')"
  "resolveInheritanceChain absolutePaths fsEdited ''/A.json'' {} = Inr [''/B.json'', ''/A.json'']"
  by (simp_all add: resolveInheritanceChain.simps fsCycle_def fsEdited_def loadRuleSet_def
        noExtends_def extendsList_def absolutePaths_def document_def)

subsection \<open>Shape of a chain\<close>

lemma resolveParents_Inr_chains:
  "resolveParents rp fs p ps W acc = Inr ch \<Longrightarrow>
     \<exists>cs. ch = acc @ concat cs
        \<and> list_all2 (\<lambda>x c. resolveInheritanceChain rp fs (rp p x) W = Inr c) ps cs"
proof (induction ps arbitrary: acc)
  case Nil
  then show ?case by simp
next
  case (Cons x ps)
  then obtain c where c: "resolveInheritanceChain rp fs (rp p x) W = Inr c"
    and rest: "resolveParents rp fs p ps W (acc @ c) = Inr ch"
    by (auto split: sum.splits)
  from Cons.IH [OF rest] obtain cs where "ch = (acc @ c) @ concat cs"
    and "list_all2 (\<lambda>x c. resolveInheritanceChain rp fs (rp p x) W = Inr c) ps cs" by blast
  then have "ch = acc @ concat (c # cs)
      \<and> list_all2 (\<lambda>x c. resolveInheritanceChain rp fs (rp p x) W = Inr c) (x # ps) (c # cs)"
    using c by simp
  then show ?case by blast
qed

text \<open>Every file of a chain has been loaded.\<close>

lemma resolve_chain_loads:
  "resolveInheritanceChain rp fs p V = Inr chain \<Longrightarrow> f \<in> set chain
     \<Longrightarrow> \<exists>d. loadRuleSet fs f = Inr d"
proof (induction "card (fst ` set fs - V)" arbitrary: p V chain f rule: less_induct)
  case less
  have nv: "p \<notin> V" using less.prems(1) by (rule resolve_Inr_not_visited)
  obtain rs where rs: "loadRuleSet fs p = Inr rs"
    using less.prems(1) nv by (cases "loadRuleSet fs p") (auto simp: resolve_load_error)
  show ?case
  proof (cases "noExtends rs")
    case True
    then show ?thesis using less.prems rs nv by (auto simp: resolve_leaf)
  next
    case False
    from less.prems(1) obtain ch where ch: "resolveParents rp fs p (extendsList rs) (insert p V) [] = Inr ch"
      and chain: "chain = ch @ [p]"
      by (auto simp: resolve_node [OF nv rs False] split: sum.splits)
    from resolveParents_Inr_chains [OF ch] obtain cs where cs: "ch = concat cs"
      and all: "list_all2 (\<lambda>x c. resolveInheritanceChain rp fs (rp p x) (insert p V) = Inr c)
                  (extendsList rs) cs" by auto
    have "p \<in> fst ` set fs"
      using rs by (auto simp: loadRuleSet_def split: option.splits fileContent.splits
          dest: map_of_SomeD intro: rev_image_eqI)
    then have "fst ` set fs - insert p V \<subset> fst ` set fs - V" using nv by auto
    then have smaller: "card (fst ` set fs - insert p V) < card (fst ` set fs - V)"
      by (intro psubset_card_mono) auto
    show ?thesis
    proof (cases "f = p")
      case True
      then show ?thesis using rs by blast
    next
      case False
      then obtain c where "c \<in> set cs" "f \<in> set c"
        using less.prems(2) chain cs by auto
      then obtain x where "resolveInheritanceChain rp fs (rp p x) (insert p V) = Inr c"
        using all by (auto simp: list_all2_conv_all_nth in_set_conv_nth)
      from less.hyps [OF smaller this \<open>f \<in> set c\<close>] show ?thesis .
    qed
  qed
qed

subsection \<open>Paths and occurrences\<close>

lemma walk_Nil_iff: "walk rp fs p [] q \<longleftrightarrow> q = p"
  by (auto elim: walk.cases intro: walk.here)

lemma walk_Cons_iff:
  "walk rp fs p (i # ks) q \<longleftrightarrow>
     (\<exists>rs. loadRuleSet fs p = Inr rs \<and> i < length (extendsList rs)
           \<and> walk rp fs (rp p (extendsList rs ! i)) ks q)"
  by (auto elim: walk.cases intro: walk.down)

lemma walks_leaf:
  "loadRuleSet fs p = Inr rs \<Longrightarrow> noExtends rs
     \<Longrightarrow> {ks. walk rp fs p ks q} = (if q = p then {[]} else {})"
proof -
  assume rs: "loadRuleSet fs p = Inr rs" and leaf: "noExtends rs"
  have "walk rp fs p ks q \<longleftrightarrow> ks = [] \<and> q = p" for ks
    using rs leaf by (cases ks) (auto simp: walk_Nil_iff walk_Cons_iff noExtends_iff)
  then show ?thesis by auto
qed

lemma walks_node:
  "loadRuleSet fs p = Inr rs \<Longrightarrow>
     {ks. walk rp fs p ks q}
       = (if q = p then {[]} else {})
         \<union> (\<Union>i\<in>{..<length (extendsList rs)}.
               (#) i ` {ks. walk rp fs (rp p (extendsList rs ! i)) ks q})"
proof -
  assume rs: "loadRuleSet fs p = Inr rs"
  have "walk rp fs p ks q \<longleftrightarrow>
      (ks = [] \<and> q = p)
      \<or> (\<exists>i js. ks = i # js \<and> i < length (extendsList rs)
            \<and> walk rp fs (rp p (extendsList rs ! i)) js q)" for ks
    using rs by (cases ks) (auto simp: walk_Nil_iff walk_Cons_iff)
  then show ?thesis by (auto simp: image_iff)
qed

lemma count_list_concat:
  "count_list (concat cs) q = (\<Sum>i<length cs. count_list (cs ! i) q)"
proof (induction cs)
  case Nil
  show ?case by simp
next
  case (Cons c cs)
  have "(\<Sum>i<length (c # cs). count_list ((c # cs) ! i) q)
      = count_list c q + (\<Sum>i<length cs. count_list (cs ! i) q)"
    by (simp add: sum.lessThan_Suc_shift del: sum.lessThan_Suc)
  then show ?case using Cons.IH by simp
qed

lemma card_walks_node:
  fixes n :: nat
  assumes fin: "\<And>i. i < n \<Longrightarrow> finite (W i)"
  shows "finite ((if b then {[]} else {}) \<union> (\<Union>i\<in>{..<n}. (#) i ` W i))
       \<and> card ((if b then {[]} else {}) \<union> (\<Union>i\<in>{..<n}. (#) i ` W i))
         = (if b then 1 else 0) + (\<Sum>i<n. card (W i))"
proof -
  let ?U = "\<Union>i\<in>{..<n}. (#) i ` W i"
  have finU: "finite ?U" by (intro finite_UN_I finite_imageI) (simp_all add: fin)
  have "card ?U = (\<Sum>i\<in>{..<n}. card ((#) i ` W i))"
    by (rule card_UN_disjoint) (use fin in auto)
  also have "\<dots> = (\<Sum>i<n. card (W i))"
    by (intro sum.cong refl card_image) simp
  finally have cardU: "card ?U = (\<Sum>i<n. card (W i))" .
  have disj: "(if b then {[]} else {}) \<inter> ?U = {}" by auto
  have "card ((if b then {[]} else {}) \<union> ?U) = card (if b then {[]::nat list} else {}) + card ?U"
    by (rule card_Un_disjoint) (use finU disj in auto)
  then show ?thesis using finU cardU by auto
qed

text \<open>A document occurs in the chain once for each path that leads to it.\<close>

lemma chain_counts_walks:
  "resolveInheritanceChain rp fs p V = Inr chain
     \<Longrightarrow> finite {ks. walk rp fs p ks q} \<and> count_list chain q = card {ks. walk rp fs p ks q}"
proof (induction "card (fst ` set fs - V)" arbitrary: p V chain rule: less_induct)
  case less
  have nv: "p \<notin> V" using less.prems(1) by (rule resolve_Inr_not_visited)
  obtain rs where rs: "loadRuleSet fs p = Inr rs"
    using less.prems(1) nv by (cases "loadRuleSet fs p") (auto simp: resolve_load_error)
  show ?case
  proof (cases "noExtends rs")
    case True
    then have "chain = [p]" using less.prems rs nv by (simp add: resolve_leaf)
    then show ?thesis by (auto simp: walks_leaf [OF rs True])
  next
    case False
    let ?ps = "extendsList rs"
    from less.prems(1) obtain ch where ch: "resolveParents rp fs p ?ps (insert p V) [] = Inr ch"
      and chain: "chain = ch @ [p]"
      by (auto simp: resolve_node [OF nv rs False] split: sum.splits)
    from resolveParents_Inr_chains [OF ch] obtain cs where cs: "ch = concat cs"
      and all: "list_all2 (\<lambda>x c. resolveInheritanceChain rp fs (rp p x) (insert p V) = Inr c)
                  ?ps cs" by auto
    have len: "length cs = length ?ps" using all by (simp add: list_all2_lengthD)
    have "p \<in> fst ` set fs"
      using rs by (auto simp: loadRuleSet_def split: option.splits fileContent.splits
          dest: map_of_SomeD intro: rev_image_eqI)
    then have "fst ` set fs - insert p V \<subset> fst ` set fs - V" using nv by auto
    then have smaller: "card (fst ` set fs - insert p V) < card (fst ` set fs - V)"
      by (intro psubset_card_mono) auto
    have ih: "finite {ks. walk rp fs (rp p (?ps ! i)) ks q}
        \<and> count_list (cs ! i) q = card {ks. walk rp fs (rp p (?ps ! i)) ks q}"
      if "i < length ?ps" for i
    proof -
      have "resolveInheritanceChain rp fs (rp p (?ps ! i)) (insert p V) = Inr (cs ! i)"
        using all that by (simp add: list_all2_conv_all_nth)
      from less.hyps [OF smaller this] show ?thesis .
    qed
    have fin: "finite {ks. walk rp fs (rp p (?ps ! i)) ks q}" if "i < length ?ps" for i
      using ih that by blast
    note node = card_walks_node [where n = "length ?ps" and b = "q = p"
        and W = "\<lambda>i. {ks. walk rp fs (rp p (?ps ! i)) ks q}", OF fin]
    have "count_list chain q = (\<Sum>i<length ?ps. count_list (cs ! i) q) + (if q = p then 1 else 0)"
      by (auto simp: chain cs count_list_concat len)
    also have "(\<Sum>i<length ?ps. count_list (cs ! i) q)
        = (\<Sum>i<length ?ps. card {ks. walk rp fs (rp p (?ps ! i)) ks q})"
      by (intro sum.cong refl) (use ih in simp)
    finally show ?thesis
      using node by (simp add: walks_node [OF rs])
  qed
qed

lemma two_walks_twice:
  assumes "resolveInheritanceChain rp fs p V = Inr chain"
    and "walk rp fs p k1 q" "walk rp fs p k2 q" "k1 \<noteq> k2"
  shows "2 \<le> count_list chain q"
proof -
  from chain_counts_walks [OF assms(1), of q]
  have fin: "finite {ks. walk rp fs p ks q}"
    and cnt: "count_list chain q = card {ks. walk rp fs p ks q}" by auto
  have "{k1, k2} \<subseteq> {ks. walk rp fs p ks q}" using assms by auto
  then have "card {k1, k2} \<le> card {ks. walk rp fs p ks q}"
    using fin by (rule card_mono [rotated])
  then show ?thesis using assms(4) cnt by simp
qed

lemma twice_split:
  "2 \<le> count_list xs x \<Longrightarrow> \<exists>c1 c2 c3. xs = c1 @ x # c2 @ x # c3 \<and> x \<notin> set c1"
proof -
  assume two: "2 \<le> count_list xs x"
  then have "x \<in> set xs" by (metis count_list_0_iff not_numeral_le_zero)
  then obtain c1 rest where xs: "xs = c1 @ x # rest" and c1: "x \<notin> set c1"
    by (auto dest: split_list_first)
  have "count_list c1 x = 0" using c1 by (simp add: count_list_0_iff)
  then have "1 \<le> count_list rest x" using two by (simp add: xs)
  then have "x \<in> set rest" by (metis count_list_0_iff not_one_le_zero)
  then obtain c2 c3 where "rest = c2 @ x # c3" by (auto dest: split_list)
  then show ?thesis using xs c1 by blast
qed

section \<open>Properties of objects\<close>

lemma map_of_insertIndex: "map_of (insertIndex k v obj) = (map_of obj)(k \<mapsto> v)"
  by (induction obj) (auto simp: fun_eq_iff)

lemma map_of_assign: "map_of (assign k v obj) = (map_of obj)(k \<mapsto> v)"
  by (auto simp: assign_def update_conv' map_of_insertIndex fun_eq_iff map_add_def
      split: option.splits)

lemma set_insertIndex: "set (insertIndex k v obj) = insert (k, v) (set obj)"
  by (induction obj) auto

lemma keys_insertIndex: "fst ` set (insertIndex k v obj) = insert k (fst ` set obj)"
  by (simp add: set_insertIndex)

lemma distinct_insertIndex:
  "distinct (map fst obj) \<Longrightarrow> k \<notin> fst ` set obj \<Longrightarrow> distinct (map fst (insertIndex k v obj))"
  by (induction obj) (auto simp: set_insertIndex)

lemma distinct_assign:
  "distinct (map fst obj) \<Longrightarrow> distinct (map fst (assign k v obj))"
  by (auto simp: assign_def distinct_update distinct_insertIndex map_of_eq_None_iff)

text \<open>The key order, for keys that are not array indices: a new key goes last.\<close>

lemma keys_assign:
  "\<not> isArrayIndex k
     \<Longrightarrow> map fst (assign k v obj)
         = (if k \<in> set (map fst obj) then map fst obj else map fst obj @ [k])"
  by (auto simp: assign_def update_keys map_of_eq_None_iff dest: weak_map_of_SomeI)

section \<open>Properties of the merger\<close>

text \<open>
  A loop over entries none of which is an inherited name is a fold of the loop body;
  with such a name among them it throws.
\<close>

lemma forEach_mergeRule:
  "forEach (mergeRule fp) acc es =
     (if \<exists>k\<in>fst ` set es. inherited k then Inl pushTypeError
      else Inr (foldl (mergeRuleOwn fp) acc es))"
  by (induction es arbitrary: acc) (auto simp: mergeRule_def)

lemma forEach_applyOverride:
  "forEach (applyOverride fp) acc es =
     (if \<exists>k\<in>fst ` set es. inherited k then Inl pushTypeError
      else Inr (foldl (applyOverrideOwn fp) acc es))"
  by (induction es arbitrary: acc) (auto simp: applyOverride_def)

lemma mergeFile_cases:
  "mergeFile fp doc acc =
     (if ownIds doc then Inr (mergeFileOwn fp doc acc) else Inl pushTypeError)"
  by (auto simp: mergeFile_def mergeFileOwn_def ownIds_def forEach_mergeRule
      forEach_applyOverride)

lemma mergeFile_own: "ownIds doc \<Longrightarrow> mergeFile fp doc acc = Inr (mergeFileOwn fp doc acc)"
  by (simp add: mergeFile_cases)

lemma mergeChain_Cons_Inr:
  "mergeChain fs (f # chain) acc = Inr res \<longleftrightarrow>
     (\<exists>doc. loadRuleSet fs f = Inr doc \<and> ownIds doc
            \<and> mergeChain fs chain (mergeFileOwn f doc acc) = Inr res)"
  by (auto simp: mergeFile_cases split: sum.splits)

lemma mergeChain_Cons_own:
  "loadRuleSet fs f = Inr doc \<Longrightarrow> ownIds doc
     \<Longrightarrow> mergeChain fs (f # chain) acc = mergeChain fs chain (mergeFileOwn f doc acc)"
  by (simp add: mergeFile_own)

lemma mergeRuleOwn_rules [simp]:
  "map_of (mergedRules (mergeRuleOwn fp acc (k, r))) = (map_of (mergedRules acc))(k \<mapsto> r)"
  by (simp add: mergeRuleOwn_def map_of_assign)

lemma mergeRuleOwn_sources [simp]:
  "map_of (sources (mergeRuleOwn fp acc (k, r)))
     = (map_of (sources acc))(k \<mapsto> sourcesOf (sources acc) k @ [fp])"
  by (simp add: mergeRuleOwn_def map_of_assign)

lemma mergeRuleOwn_conflicts:
  "conflicts (mergeRuleOwn fp acc (k, r)) =
     (if map_of (mergedRules acc) k = None then conflicts acc
      else conflicts acc @
        [\<lparr>ruleId = k, conflict = ''Rule redefined in '' @ fp,
          conflictSources = [firstSource (sources acc) k, fp]\<rparr>])"
  by (simp add: mergeRuleOwn_def split: option.splits)

lemma applyOverrideOwn_absent:
  "map_of (mergedRules acc) k = None \<Longrightarrow>
     applyOverrideOwn fp acc (k, ov) =
       acc\<lparr>conflicts := conflicts acc @
         [\<lparr>ruleId = k, conflict = ''Override for non-existent rule in '' @ fp,
           conflictSources = [fp]\<rparr>]\<rparr>"
  by (simp add: applyOverrideOwn_def)

lemma applyOverrideOwn_present:
  "map_of (mergedRules acc) k = Some r \<Longrightarrow>
     applyOverrideOwn fp acc (k, ov) =
       acc\<lparr>mergedRules := assign k (spread r ov) (mergedRules acc),
           sources := assign k (sourcesOf (sources acc) k @ [fp @ '' (override)''])
                        (sources acc)\<rparr>"
  by (simp add: applyOverrideOwn_def)

lemma applyOverrideOwn_rules:
  "map_of (mergedRules (applyOverrideOwn fp acc (k, ov))) =
     (case map_of (mergedRules acc) k of
        None \<Rightarrow> map_of (mergedRules acc)
      | Some r \<Rightarrow> (map_of (mergedRules acc))(k \<mapsto> spread r ov))"
  by (simp add: applyOverrideOwn_def map_of_assign split: option.splits)

lemma applyOverrideOwn_sources:
  "map_of (sources (applyOverrideOwn fp acc (k, ov))) =
     (case map_of (mergedRules acc) k of
        None \<Rightarrow> map_of (sources acc)
      | Some r \<Rightarrow> (map_of (sources acc))(k \<mapsto> sourcesOf (sources acc) k @ [fp @ '' (override)'']))"
  by (simp add: applyOverrideOwn_def map_of_assign split: option.splits)

lemma applyOverrideOwn_conflicts:
  "conflicts (applyOverrideOwn fp acc (k, ov)) =
     (if map_of (mergedRules acc) k = None
      then conflicts acc @
        [\<lparr>ruleId = k, conflict = ''Override for non-existent rule in '' @ fp,
          conflictSources = [fp]\<rparr>]
      else conflicts acc)"
  by (auto simp: applyOverrideOwn_def split: option.splits)

subsection \<open>The two objects stay in step\<close>

lemma inStep_empty: "inStep emptyResolved"
  by (simp add: inStep_def emptyResolved_def)

lemma inStep_mergeRuleOwn: "inStep acc \<Longrightarrow> inStep (mergeRuleOwn fp acc e)"
  by (cases e) (auto simp: inStep_def)

lemma inStep_applyOverrideOwn:
  assumes "inStep acc"
  shows "inStep (applyOverrideOwn fp acc e)"
proof (cases e)
  case (Pair k ov)
  show ?thesis
  proof (cases "map_of (mergedRules acc) k")
    case None
    then show ?thesis using assms Pair by (simp add: inStep_def applyOverrideOwn_absent)
  next
    case (Some r)
    have "(map_of (mergedRules acc) k = None) = (map_of (sources acc) k = None)"
      using assms unfolding inStep_def by blast
    with Some have "map_of (sources acc) k \<noteq> None" by simp
    then show ?thesis
      using assms Pair Some
      by (auto simp: inStep_def applyOverrideOwn_rules applyOverrideOwn_sources)
  qed
qed

lemma inStep_foldl_mergeRuleOwn: "inStep acc \<Longrightarrow> inStep (foldl (mergeRuleOwn fp) acc es)"
  by (induction es arbitrary: acc) (auto intro: inStep_mergeRuleOwn)

lemma inStep_foldl_applyOverrideOwn: "inStep acc \<Longrightarrow> inStep (foldl (applyOverrideOwn fp) acc es)"
  by (induction es arbitrary: acc) (auto intro: inStep_applyOverrideOwn)

lemma inStep_mergeFileOwn: "inStep acc \<Longrightarrow> inStep (mergeFileOwn fp doc acc)"
  by (simp add: mergeFileOwn_def inStep_foldl_mergeRuleOwn inStep_foldl_applyOverrideOwn)

lemma inStep_mergeChain:
  "inStep acc \<Longrightarrow> mergeChain fs chain acc = Inr res \<Longrightarrow> inStep res"
  by (induction chain arbitrary: acc)
     (auto simp: mergeChain_Cons_Inr simp del: mergeChain.simps(2) intro: inStep_mergeFileOwn)

text \<open>Where \<open>sources[ruleId][0]\<close> is read, the list is there and has a first entry.\<close>

lemma firstSource_defined:
  "inStep acc \<Longrightarrow> map_of (mergedRules acc) rid = Some r
     \<Longrightarrow> \<exists>f rest. map_of (sources acc) rid = Some (f # rest) \<and> firstSource (sources acc) rid = f"
  unfolding inStep_def firstSource_def
  by (metis list.exhaust list.simps(5) option.distinct(1) option.exhaust option.simps(5))

subsection \<open>Conflicts are only added\<close>

lemma conflicts_mergeRuleOwn: "set (conflicts acc) \<subseteq> set (conflicts (mergeRuleOwn fp acc e))"
  by (cases e) (auto simp: mergeRuleOwn_conflicts)

lemma conflicts_applyOverrideOwn: "set (conflicts acc) \<subseteq> set (conflicts (applyOverrideOwn fp acc e))"
  by (cases e) (auto simp: applyOverrideOwn_conflicts)

lemma conflicts_foldl_mergeRuleOwn:
  "set (conflicts acc) \<subseteq> set (conflicts (foldl (mergeRuleOwn fp) acc es))"
proof (induction es arbitrary: acc)
  case Nil
  show ?case by simp
next
  case (Cons e es)
  have "set (conflicts acc) \<subseteq> set (conflicts (mergeRuleOwn fp acc e))"
    by (rule conflicts_mergeRuleOwn)
  also have "\<dots> \<subseteq> set (conflicts (foldl (mergeRuleOwn fp) (mergeRuleOwn fp acc e) es))"
    by (rule Cons.IH)
  finally show ?case by simp
qed

lemma conflicts_foldl_applyOverrideOwn:
  "set (conflicts acc) \<subseteq> set (conflicts (foldl (applyOverrideOwn fp) acc es))"
proof (induction es arbitrary: acc)
  case Nil
  show ?case by simp
next
  case (Cons e es)
  have "set (conflicts acc) \<subseteq> set (conflicts (applyOverrideOwn fp acc e))"
    by (rule conflicts_applyOverrideOwn)
  also have "\<dots> \<subseteq> set (conflicts (foldl (applyOverrideOwn fp) (applyOverrideOwn fp acc e) es))"
    by (rule Cons.IH)
  finally show ?case by simp
qed

lemma conflicts_mergeFileOwn: "set (conflicts acc) \<subseteq> set (conflicts (mergeFileOwn fp doc acc))"
  unfolding mergeFileOwn_def
  using conflicts_foldl_mergeRuleOwn conflicts_foldl_applyOverrideOwn by (rule subset_trans)

lemma conflicts_mergeChain:
  "mergeChain fs chain acc = Inr res \<Longrightarrow> set (conflicts acc) \<subseteq> set (conflicts res)"
proof (induction chain arbitrary: acc)
  case Nil
  then show ?case by simp
next
  case (Cons f chain)
  from Cons.prems(1) obtain doc where doc: "loadRuleSet fs f = Inr doc"
    and rest: "mergeChain fs chain (mergeFileOwn f doc acc) = Inr res"
    unfolding mergeChain_Cons_Inr by blast
  show ?case
    using conflicts_mergeFileOwn Cons.IH [OF rest] by (rule subset_trans)
qed

subsection \<open>The first source of a rule does not change\<close>

lemma firstDefinedIn_mergeRuleOwn:
  "firstDefinedIn acc rid f \<Longrightarrow> firstDefinedIn (mergeRuleOwn fp acc e) rid f"
  by (cases e) (auto simp: firstDefinedIn_def sourcesOf_def)

lemma firstDefinedIn_applyOverrideOwn:
  "firstDefinedIn acc rid f \<Longrightarrow> firstDefinedIn (applyOverrideOwn fp acc e) rid f"
  by (cases e) (auto simp: firstDefinedIn_def sourcesOf_def applyOverrideOwn_rules
      applyOverrideOwn_sources split: option.splits)

lemma firstDefinedIn_foldl_mergeRuleOwn:
  "firstDefinedIn acc rid f \<Longrightarrow> firstDefinedIn (foldl (mergeRuleOwn fp) acc es) rid f"
  by (induction es arbitrary: acc) (auto intro: firstDefinedIn_mergeRuleOwn)

lemma firstDefinedIn_foldl_applyOverrideOwn:
  "firstDefinedIn acc rid f \<Longrightarrow> firstDefinedIn (foldl (applyOverrideOwn fp) acc es) rid f"
  by (induction es arbitrary: acc) (auto intro: firstDefinedIn_applyOverrideOwn)

lemma firstDefinedIn_mergeFileOwn:
  "firstDefinedIn acc rid f \<Longrightarrow> firstDefinedIn (mergeFileOwn fp doc acc) rid f"
  by (simp add: mergeFileOwn_def firstDefinedIn_foldl_mergeRuleOwn firstDefinedIn_foldl_applyOverrideOwn)

lemma firstDefinedIn_mergeChain:
  "firstDefinedIn acc rid f \<Longrightarrow> mergeChain fs chain acc = Inr res \<Longrightarrow> firstDefinedIn res rid f"
  by (induction chain arbitrary: acc)
     (auto simp: mergeChain_Cons_Inr simp del: mergeChain.simps(2)
        intro: firstDefinedIn_mergeFileOwn)

lemma firstDefinedIn_new:
  "inStep acc \<Longrightarrow> map_of (mergedRules acc) rid = None
     \<Longrightarrow> firstDefinedIn (mergeRuleOwn fp acc (rid, r)) rid fp"
  by (auto simp: firstDefinedIn_def inStep_def sourcesOf_def)

lemma mergeRuleOwn_other:
  "fst e \<noteq> rid \<Longrightarrow> map_of (mergedRules (mergeRuleOwn fp acc e)) rid = map_of (mergedRules acc) rid"
  by (cases e) auto

lemma firstDefinedIn_foldl_new:
  "inStep acc \<Longrightarrow> map_of (mergedRules acc) rid = None \<Longrightarrow> (rid, r) \<in> set es
     \<Longrightarrow> firstDefinedIn (foldl (mergeRuleOwn fp) acc es) rid fp"
proof (induction es arbitrary: acc)
  case Nil
  then show ?case by simp
next
  case (Cons e es)
  show ?case
  proof (cases "fst e = rid")
    case True
    then have "firstDefinedIn (mergeRuleOwn fp acc e) rid fp"
      using Cons.prems(1,2) by (cases e) (auto intro: firstDefinedIn_new)
    then show ?thesis by (simp add: firstDefinedIn_foldl_mergeRuleOwn)
  next
    case False
    then have "(rid, r) \<in> set es" using Cons.prems(3) by auto
    moreover have "map_of (mergedRules (mergeRuleOwn fp acc e)) rid = None"
      using False Cons.prems(2) by (simp add: mergeRuleOwn_other)
    ultimately show ?thesis
      using Cons.IH [OF inStep_mergeRuleOwn [OF Cons.prems(1)]] by simp
  qed
qed

subsection \<open>A redefinition is recorded\<close>

lemma redefinition_recorded:
  "firstDefinedIn acc rid f \<Longrightarrow> (rid, r) \<in> set es
     \<Longrightarrow> \<lparr>ruleId = rid, conflict = ''Rule redefined in '' @ fp, conflictSources = [f, fp]\<rparr>
          \<in> set (conflicts (foldl (mergeRuleOwn fp) acc es))"
proof (induction es arbitrary: acc)
  case Nil
  then show ?case by simp
next
  case (Cons e es)
  show ?case
  proof (cases "e = (rid, r)")
    case True
    obtain y where "firstSource (sources acc) rid = f" "map_of (mergedRules acc) rid = Some y"
      using Cons.prems(1) by (auto simp: firstDefinedIn_def firstSource_def)
    then have "\<lparr>ruleId = rid, conflict = ''Rule redefined in '' @ fp, conflictSources = [f, fp]\<rparr>
        \<in> set (conflicts (mergeRuleOwn fp acc e))"
      using True by (simp add: mergeRuleOwn_conflicts)
    then show ?thesis
      using conflicts_foldl_mergeRuleOwn [of "mergeRuleOwn fp acc e" fp es] by auto
  next
    case False
    then have "(rid, r) \<in> set es" using Cons.prems(2) by auto
    then show ?thesis
      using Cons.IH [OF firstDefinedIn_mergeRuleOwn [OF Cons.prems(1)]] by simp
  qed
qed

lemma redefinition_recorded_mergeFileOwn:
  assumes "firstDefinedIn acc rid f" and "(rid, r) \<in> set (entries (rules doc))"
  shows "\<lparr>ruleId = rid, conflict = ''Rule redefined in '' @ fp, conflictSources = [f, fp]\<rparr>
          \<in> set (conflicts (mergeFileOwn fp doc acc))"
  unfolding mergeFileOwn_def
  using redefinition_recorded [OF assms] conflicts_foldl_applyOverrideOwn by blast

subsection \<open>Merging a whole chain\<close>

lemma mergeChain_append:
  "mergeChain fs (xs @ ys) acc =
     (case mergeChain fs xs acc of Inl e \<Rightarrow> Inl e | Inr a \<Rightarrow> mergeChain fs ys a)"
  by (induction xs arbitrary: acc) (auto split: sum.splits)

lemma mergeChain_total:
  "\<forall>f\<in>set chain. \<exists>d. loadRuleSet fs f = Inr d \<and> ownIds d
     \<Longrightarrow> \<exists>res. mergeChain fs chain acc = Inr res"
proof (induction chain arbitrary: acc)
  case Nil
  show ?case by simp
next
  case (Cons f chain)
  then obtain d where d: "loadRuleSet fs f = Inr d" "ownIds d" by auto
  from Cons.IH [of "mergeFileOwn f d acc"] Cons.prems
  obtain res where "mergeChain fs chain (mergeFileOwn f d acc) = Inr res" by auto
  then show ?case using d by (simp add: mergeFile_own)
qed

text \<open>
  With a chain, \<open>resolveRules\<close> returns a result when no document of the chain has an
  inherited name among its ids, and throws otherwise.
\<close>

lemma resolveRules_total:
  assumes "resolveInheritanceChain rp fs p {} = Inr chain"
    and "\<forall>f\<in>set chain. \<forall>d. loadRuleSet fs f = Inr d \<longrightarrow> ownIds d"
  shows "\<exists>res. resolveRules rp fs p = Inr res \<and> mergeChain fs chain emptyResolved = Inr res"
proof -
  have "\<forall>f\<in>set chain. \<exists>d. loadRuleSet fs f = Inr d \<and> ownIds d"
    using resolve_chain_loads [OF assms(1)] assms(2) by blast
  from mergeChain_total [OF this, of emptyResolved] show ?thesis
    using assms(1) by (auto simp: resolveRules_def)
qed

lemma mergeChain_Inr_own:
  "mergeChain fs chain acc = Inr res \<Longrightarrow> f \<in> set chain
     \<Longrightarrow> \<exists>d. loadRuleSet fs f = Inr d \<and> ownIds d"
  by (induction chain arbitrary: acc)
     (auto simp: mergeChain_Cons_Inr simp del: mergeChain.simps(2))

lemma mergeChain_inherited:
  "\<forall>f\<in>set chain. \<exists>d. loadRuleSet fs f = Inr d \<Longrightarrow> f \<in> set chain
     \<Longrightarrow> loadRuleSet fs f = Inr d \<Longrightarrow> \<not> ownIds d
     \<Longrightarrow> mergeChain fs chain acc = Inl pushTypeError"
proof (induction chain arbitrary: acc)
  case Nil
  then show ?case by simp
next
  case (Cons g chain)
  from Cons.prems(1) obtain dg where dg: "loadRuleSet fs g = Inr dg" by auto
  show ?case
  proof (cases "ownIds dg")
    case True
    then have "g \<noteq> f" using dg Cons.prems(3,4) by auto
    then have "f \<in> set chain" using Cons.prems(2) by simp
    from Cons.IH [OF _ this Cons.prems(3,4)] Cons.prems(1) show ?thesis
      using dg True by (simp add: mergeFile_own)
  next
    case False
    then show ?thesis using dg by (simp add: mergeFile_cases)
  qed
qed

subsection \<open>Rules a list of entries does not name\<close>

lemma applyOverrideOwn_other:
  "fst e \<noteq> rid
     \<Longrightarrow> map_of (mergedRules (applyOverrideOwn fp acc e)) rid = map_of (mergedRules acc) rid"
  by (cases e) (auto simp: applyOverrideOwn_rules split: option.splits)

lemma foldl_mergeRuleOwn_other:
  "rid \<notin> fst ` set es
     \<Longrightarrow> map_of (mergedRules (foldl (mergeRuleOwn fp) acc es)) rid = map_of (mergedRules acc) rid"
  by (induction es arbitrary: acc) (auto simp: mergeRuleOwn_other)

lemma foldl_applyOverrideOwn_other:
  "rid \<notin> fst ` set es
     \<Longrightarrow> map_of (mergedRules (foldl (applyOverrideOwn fp) acc es)) rid
         = map_of (mergedRules acc) rid"
  by (induction es arbitrary: acc) (auto simp: applyOverrideOwn_other)

lemma mergeFileOwn_other:
  "rid \<notin> fst ` set (entries (rules doc)) \<Longrightarrow> rid \<notin> fst ` set (entries (overrides doc))
     \<Longrightarrow> map_of (mergedRules (mergeFileOwn fp doc acc)) rid = map_of (mergedRules acc) rid"
  by (simp add: mergeFileOwn_def foldl_mergeRuleOwn_other foldl_applyOverrideOwn_other)

lemma mergeChain_other:
  "mergeChain fs chain acc = Inr res
     \<Longrightarrow> \<forall>f\<in>set chain. \<forall>doc. loadRuleSet fs f = Inr doc \<longrightarrow>
            rid \<notin> fst ` set (entries (rules doc)) \<and> rid \<notin> fst ` set (entries (overrides doc))
     \<Longrightarrow> map_of (mergedRules res) rid = map_of (mergedRules acc) rid"
proof (induction chain arbitrary: acc)
  case Nil
  then show ?case by simp
next
  case (Cons f chain)
  from Cons.prems(1) obtain doc where doc: "loadRuleSet fs f = Inr doc"
    and rest: "mergeChain fs chain (mergeFileOwn f doc acc) = Inr res"
    unfolding mergeChain_Cons_Inr by blast
  have "map_of (mergedRules res) rid = map_of (mergedRules (mergeFileOwn f doc acc)) rid"
    using Cons.IH [OF rest] Cons.prems(2) by simp
  also have "\<dots> = map_of (mergedRules acc) rid"
    using Cons.prems(2) doc by (simp add: mergeFileOwn_other)
  finally show ?case .
qed

text \<open>Overrides never add a rule.\<close>

lemma applyOverrideOwn_absent_iff:
  "map_of (mergedRules (applyOverrideOwn fp acc e)) rid = None
     \<longleftrightarrow> map_of (mergedRules acc) rid = None"
  by (cases e) (auto simp: applyOverrideOwn_rules split: option.splits)

lemma foldl_applyOverrideOwn_absent_iff:
  "map_of (mergedRules (foldl (applyOverrideOwn fp) acc es)) rid = None
     \<longleftrightarrow> map_of (mergedRules acc) rid = None"
  by (induction es arbitrary: acc) (auto simp: applyOverrideOwn_absent_iff)

text \<open>A chain none of whose documents defines the rule leaves it absent.\<close>

lemma mergeChain_undefined:
  "mergeChain fs chain acc = Inr res \<Longrightarrow> map_of (mergedRules acc) rid = None
     \<Longrightarrow> \<forall>f\<in>set chain. \<forall>doc. loadRuleSet fs f = Inr doc \<longrightarrow>
            rid \<notin> fst ` set (entries (rules doc))
     \<Longrightarrow> map_of (mergedRules res) rid = None"
proof (induction chain arbitrary: acc)
  case Nil
  then show ?case by simp
next
  case (Cons f chain)
  from Cons.prems(1) obtain doc where doc: "loadRuleSet fs f = Inr doc"
    and rest: "mergeChain fs chain (mergeFileOwn f doc acc) = Inr res"
    unfolding mergeChain_Cons_Inr by blast
  have "rid \<notin> fst ` set (entries (rules doc))" using Cons.prems(3) doc by simp
  then have "map_of (mergedRules (mergeFileOwn f doc acc)) rid = None"
    using Cons.prems(2)
    by (simp add: mergeFileOwn_def foldl_applyOverrideOwn_absent_iff foldl_mergeRuleOwn_other)
  then show ?case using Cons.IH [OF rest] Cons.prems(3) by simp
qed

subsection \<open>What one document does to a rule it names\<close>

lemma foldl_mergeRuleOwn_defines:
  "distinct (map fst es) \<Longrightarrow> (k, v) \<in> set es
     \<Longrightarrow> map_of (mergedRules (foldl (mergeRuleOwn fp) acc es)) k = Some v"
proof (induction es arbitrary: acc)
  case Nil
  then show ?case by simp
next
  case (Cons e es)
  show ?case
  proof (cases "e = (k, v)")
    case True
    then have "k \<notin> fst ` set es" using Cons.prems(1) by auto
    then show ?thesis using True by (simp add: foldl_mergeRuleOwn_other)
  next
    case False
    then show ?thesis using Cons by auto
  qed
qed

lemma foldl_applyOverrideOwn_patches:
  "distinct (map fst es) \<Longrightarrow> (k, ov) \<in> set es \<Longrightarrow> map_of (mergedRules acc) k = Some r
     \<Longrightarrow> map_of (mergedRules (foldl (applyOverrideOwn fp) acc es)) k = Some (spread r ov)"
proof (induction es arbitrary: acc)
  case Nil
  then show ?case by simp
next
  case (Cons e es)
  show ?case
  proof (cases "e = (k, ov)")
    case True
    then have "k \<notin> fst ` set es" using Cons.prems(1) by auto
    then show ?thesis
      using True Cons.prems(3) by (simp add: foldl_applyOverrideOwn_other applyOverrideOwn_rules)
  next
    case False
    then have mem: "(k, ov) \<in> set es" and ne: "fst e \<noteq> k"
      using Cons.prems(1,2) by (auto simp: rev_image_eqI)
    have "map_of (mergedRules (applyOverrideOwn fp acc e)) k = Some r"
      using ne Cons.prems(3) by (simp add: applyOverrideOwn_other)
    then show ?thesis using Cons.IH [OF _ mem] Cons.prems(1) by simp
  qed
qed

subsection \<open>The first file of a chain that defines a rule\<close>

lemma definesRule_iff:
  "loadRuleSet fs f = Inr doc \<Longrightarrow> definesRule fs rid f \<longleftrightarrow> rid \<in> fst ` set (entries (rules doc))"
  by (simp add: definesRule_def)

lemma find_split:
  "find P xs = Some x \<Longrightarrow> \<exists>c1 c2. xs = c1 @ x # c2 \<and> P x \<and> (\<forall>y\<in>set c1. \<not> P y)"
proof (induction xs)
  case Nil
  then show ?case by simp
next
  case (Cons a xs)
  show ?case
  proof (cases "P a")
    case True
    then have "a # xs = [] @ x # xs \<and> P x \<and> (\<forall>y\<in>set []. \<not> P y)"
      using Cons.prems by simp
    then show ?thesis by blast
  next
    case False
    then have "find P xs = Some x" using Cons.prems by simp
    from Cons.IH [OF this] obtain c1 c2
      where "xs = c1 @ x # c2" "P x" "\<forall>y\<in>set c1. \<not> P y" by blast
    then have "a # xs = (a # c1) @ x # c2 \<and> P x \<and> (\<forall>y\<in>set (a # c1). \<not> P y)"
      using False by simp
    then show ?thesis by blast
  qed
qed

lemma find_first:
  "P x \<Longrightarrow> \<forall>y\<in>set c1. \<not> P y \<Longrightarrow> find P (c1 @ x # c2) = Some x"
  by (induction c1) auto

lemma find_prefix: "find P xs = Some x \<Longrightarrow> find P (xs @ ys) = Some x"
  by (induction xs) (auto split: if_splits)

lemma firstDefinedIn_mergeFileOwn_new:
  assumes "inStep acc" and "map_of (mergedRules acc) rid = None"
    and "rid \<in> fst ` set (entries (rules doc))"
  shows "firstDefinedIn (mergeFileOwn fp doc acc) rid fp"
proof -
  from assms(3) obtain r where "(rid, r) \<in> set (entries (rules doc))" by auto
  with assms(1,2) have "firstDefinedIn (foldl (mergeRuleOwn fp) acc (entries (rules doc))) rid fp"
    by (rule firstDefinedIn_foldl_new)
  then show ?thesis
    unfolding mergeFileOwn_def by (rule firstDefinedIn_foldl_applyOverrideOwn)
qed

text \<open>
  After a chain is merged from the empty accumulator, the first source of a rule is the
  first file of the chain whose \<open>rules\<close> have it.
\<close>

lemma first_source_is_first_definer:
  assumes mc: "mergeChain fs chain emptyResolved = Inr res"
    and fnd: "find (definesRule fs rid) chain = Some f"
  shows "firstDefinedIn res rid f"
proof -
  from find_split [OF fnd] obtain c1 c2
    where split: "chain = c1 @ f # c2" and def: "definesRule fs rid f"
      and none: "\<forall>y\<in>set c1. \<not> definesRule fs rid y" by blast
  from mc obtain s1 where s1: "mergeChain fs c1 emptyResolved = Inr s1"
    and mc1: "mergeChain fs (f # c2) s1 = Inr res"
    by (auto simp: split mergeChain_append split: sum.splits)
  from mc1 obtain doc where doc: "loadRuleSet fs f = Inr doc"
    and rest: "mergeChain fs c2 (mergeFileOwn f doc s1) = Inr res"
    unfolding mergeChain_Cons_Inr by blast
  have in1: "inStep s1" using inStep_empty s1 by (rule inStep_mergeChain)
  have "\<forall>g\<in>set c1. \<forall>d. loadRuleSet fs g = Inr d \<longrightarrow> rid \<notin> fst ` set (entries (rules d))"
    using none definesRule_iff by blast
  with s1 have none1: "map_of (mergedRules s1) rid = None"
    by (intro mergeChain_undefined [OF s1]) (simp_all add: emptyResolved_def)
  have "rid \<in> fst ` set (entries (rules doc))"
    using def doc by (simp add: definesRule_def)
  with in1 none1 have "firstDefinedIn (mergeFileOwn f doc s1) rid f"
    by (rule firstDefinedIn_mergeFileOwn_new)
  then show ?thesis using rest by (rule firstDefinedIn_mergeChain)
qed

subsection \<open>The key order of the merged rules\<close>

lemma keys_assign_present:
  "map_of obj k \<noteq> None \<Longrightarrow> map fst (assign k v obj) = map fst obj"
  by (auto simp: assign_def update_keys dest!: map_of_SomeD intro: rev_image_eqI)

lemma keys_mergeRuleOwn:
  "\<not> isArrayIndex k
     \<Longrightarrow> map fst (mergedRules (mergeRuleOwn fp acc (k, r)))
         = map fst (mergedRules acc) @ (if k \<in> fst ` set (mergedRules acc) then [] else [k])"
  by (simp add: mergeRuleOwn_def keys_assign)

lemma keys_applyOverrideOwn:
  "map fst (mergedRules (applyOverrideOwn fp acc e)) = map fst (mergedRules acc)"
  by (cases e) (auto simp: applyOverrideOwn_def keys_assign_present split: option.splits)

lemma keys_foldl_applyOverrideOwn:
  "map fst (mergedRules (foldl (applyOverrideOwn fp) acc es)) = map fst (mergedRules acc)"
  by (induction es arbitrary: acc) (simp_all add: keys_applyOverrideOwn)

lemma spec_encounter_order_append:
  "spec_encounter_order seen (xs @ ys)
     = spec_encounter_order seen xs @ spec_encounter_order (seen \<union> set xs) ys"
  by (induction xs arbitrary: seen) (auto simp: insert_absorb)

lemma keys_foldl_mergeRuleOwn:
  "\<forall>k\<in>fst ` set es. \<not> isArrayIndex k
     \<Longrightarrow> map fst (mergedRules (foldl (mergeRuleOwn fp) acc es))
         = map fst (mergedRules acc)
           @ spec_encounter_order (fst ` set (mergedRules acc)) (map fst es)"
proof (induction es arbitrary: acc)
  case Nil
  show ?case by simp
next
  case (Cons e es)
  obtain k r where e: "e = (k, r)" by (cases e)
  have k: "\<not> isArrayIndex k" using Cons.prems e by simp
  have keys: "fst ` set (mergedRules (mergeRuleOwn fp acc (k, r)))
      = insert k (fst ` set (mergedRules acc))"
    using keys_mergeRuleOwn [OF k, of fp acc r, THEN arg_cong, of set] by auto
  show ?case
    using Cons.IH [of "mergeRuleOwn fp acc (k, r)"] Cons.prems
    by (simp add: e keys keys_mergeRuleOwn [OF k] insert_absorb)
qed

lemma keys_mergeFileOwn:
  "\<forall>k\<in>fst ` set (entries (rules doc)). \<not> isArrayIndex k
     \<Longrightarrow> map fst (mergedRules (mergeFileOwn fp doc acc))
         = map fst (mergedRules acc)
           @ spec_encounter_order (fst ` set (mergedRules acc)) (map fst (entries (rules doc)))"
  by (simp add: mergeFileOwn_def keys_foldl_applyOverrideOwn keys_foldl_mergeRuleOwn)

lemma keys_mergeChain:
  "mergeChain fs chain acc = Inr res
     \<Longrightarrow> \<forall>f\<in>set chain. \<forall>k\<in>set (ruleIdsOf fs f). \<not> isArrayIndex k
     \<Longrightarrow> map fst (mergedRules res)
         = map fst (mergedRules acc)
           @ spec_encounter_order (fst ` set (mergedRules acc)) (concat (map (ruleIdsOf fs) chain))"
proof (induction chain arbitrary: acc)
  case Nil
  then show ?case by simp
next
  case (Cons f chain)
  from Cons.prems(1) obtain doc where doc: "loadRuleSet fs f = Inr doc"
    and rest: "mergeChain fs chain (mergeFileOwn f doc acc) = Inr res"
    unfolding mergeChain_Cons_Inr by blast
  have ids: "ruleIdsOf fs f = map fst (entries (rules doc))"
    by (simp add: ruleIdsOf_def doc)
  have noidx: "\<forall>k\<in>fst ` set (entries (rules doc)). \<not> isArrayIndex k"
    using Cons.prems(2) ids by simp
  have keys: "map fst (mergedRules (mergeFileOwn f doc acc))
      = map fst (mergedRules acc)
        @ spec_encounter_order (fst ` set (mergedRules acc)) (ruleIdsOf fs f)"
    using keys_mergeFileOwn [OF noidx] ids by simp
  have set_eo: "set (spec_encounter_order S xs) = set xs - S" for S :: "string set" and xs
    by (induction xs arbitrary: S) auto
  have keyset: "fst ` set (mergedRules (mergeFileOwn f doc acc))
      = fst ` set (mergedRules acc) \<union> set (ruleIdsOf fs f)"
    using keys [THEN arg_cong, of set] by (auto simp: set_eo)
  show ?case
    using Cons.IH [OF rest] Cons.prems(2)
    by (simp add: keys keyset spec_encounter_order_append)
qed

subsection \<open>The kinds of conflict\<close>









subsection \<open>Running the merger on an example\<close>

text \<open>The definitions that a run on concrete documents unfolds.\<close>

lemmas merge_eval =
  mergeFile_def mergeRule_def applyOverride_def mergeRuleOwn_def applyOverrideOwn_def
  inherited_def objectPrototypeMembers_def assign_def isArrayIndex_def numericValue_def
  digitValue_def sourcesOf_def firstSource_def


section \<open>Diamonds in the extends graph\<close>

lemma takeWhile_upto:
  "x \<notin> set c1 \<Longrightarrow> takeWhile (\<lambda>y. y \<noteq> x) (c1 @ x # rest) = c1"
  by (induction c1) auto

lemma walk_reach: "walk rp fs p ks q \<Longrightarrow> (p, q) \<in> (extendsRel rp fs)\<^sup>*"
proof (induction rule: walk.induct)
  case (here p)
  show ?case by simp
next
  case (down p ruleSet i ks q)
  have "(p, rp p (extendsList ruleSet ! i)) \<in> extendsRel rp fs"
    using down.hyps(1,2) by (auto simp: extendsRel_def)
  then show ?case using down.IH by (rule converse_rtrancl_into_rtrancl)
qed

text \<open>Every file of a chain is reachable from the document the chain is resolved for.\<close>

lemma chain_member_reachable:
  assumes "resolveInheritanceChain rp fs p V = Inr chain" and "f \<in> set chain"
  shows "(p, f) \<in> (extendsRel rp fs)\<^sup>*"
proof -
  from chain_counts_walks [OF assms(1), of f]
  have "count_list chain f = card {ks. walk rp fs p ks f}" by blast
  moreover have "count_list chain f \<noteq> 0" using assms(2) by (simp add: count_list_0_iff)
  ultimately have "card {ks. walk rp fs p ks f} \<noteq> 0" by simp
  then have "{ks. walk rp fs p ks f} \<noteq> {}" by (metis card.empty)
  then obtain ks where "walk rp fs p ks f" by blast
  then show ?thesis by (rule walk_reach)
qed

text \<open>
  C10, as amended. In an extends graph without a reachable cycle, with every reachable
  file present and no inherited name among the ids of a reachable document, let two
  distinct paths lead from the root A to a document D. Then resolution returns a chain,
  in which D occurs once for each path to it, so at least twice; D's rules are merged at
  each occurrence, and for every rule of D the conflict \<open>Rule redefined in D\<close> is
  recorded with the sources \<open>[f, D]\<close>, where \<open>f\<close> is the first file of the chain that
  defines the rule id. That file is D itself exactly when no file before the first
  occurrence of D in the chain defines the rule.
\<close>

theorem diamond_merged_per_path:
  assumes acyclic: "\<forall>x. (A, x) \<in> (extendsRel rp fs)\<^sup>* \<longrightarrow> (x, x) \<notin> (extendsRel rp fs)\<^sup>+"
    and present: "\<forall>x. (A, x) \<in> (extendsRel rp fs)\<^sup>* \<longrightarrow> (\<exists>rs. loadRuleSet fs x = Inr rs)"
    and own: "\<forall>x. (A, x) \<in> (extendsRel rp fs)\<^sup>* \<longrightarrow> (\<forall>rs. loadRuleSet fs x = Inr rs \<longrightarrow> ownIds rs)"
    and path1: "walk rp fs A k1 D" and path2: "walk rp fs A k2 D" and distinct: "k1 \<noteq> k2"
    and D: "loadRuleSet fs D = Inr docD"
    and rule: "(rid, r) \<in> set (entries (rules docD))"
  shows "\<exists>chain resolved f.
           resolveInheritanceChain rp fs A {} = Inr chain
         \<and> resolveRules rp fs A = Inr resolved
         \<and> count_list chain D = card {ks. walk rp fs A ks D}
         \<and> 2 \<le> count_list chain D
         \<and> find (definesRule fs rid) chain = Some f
         \<and> \<lparr>ruleId = rid, conflict = ''Rule redefined in '' @ D,
             conflictSources = [f, D]\<rparr> \<in> set (conflicts resolved)
         \<and> (f = D \<longleftrightarrow>
              (\<forall>x\<in>set (takeWhile (\<lambda>x. x \<noteq> D) chain). \<not> definesRule fs rid x))"
proof -
  from resolve_succeeds [OF acyclic present] obtain chain
    where chain: "resolveInheritanceChain rp fs A {} = Inr chain" ..
  have "\<forall>f\<in>set chain. \<forall>d. loadRuleSet fs f = Inr d \<longrightarrow> ownIds d"
    using chain_member_reachable [OF chain] own by blast
  from resolveRules_total [OF chain this] obtain res
    where rr: "resolveRules rp fs A = Inr res"
      and mc: "mergeChain fs chain emptyResolved = Inr res" by blast
  have cnt: "count_list chain D = card {ks. walk rp fs A ks D}"
    using chain_counts_walks [OF chain] by blast
  have two: "2 \<le> count_list chain D"
    using chain path1 path2 distinct by (rule two_walks_twice)
  from twice_split [OF two] obtain c1 c2 c3
    where split: "chain = c1 @ D # c2 @ D # c3" and c1: "D \<notin> set c1" by blast
  have tw: "takeWhile (\<lambda>x. x \<noteq> D) chain = c1"
    unfolding split using c1 by (rule takeWhile_upto)
  have defD: "definesRule fs rid D"
    using D rule by (auto simp: definesRule_def intro: rev_image_eqI)
  then have "find (definesRule fs rid) (c1 @ [D]) \<noteq> None"
    by (auto simp: find_None_iff)
  then obtain f where f1: "find (definesRule fs rid) (c1 @ [D]) = Some f" by blast
  have f: "find (definesRule fs rid) chain = Some f"
    using find_prefix [OF f1, of "c2 @ D # c3"] unfolding split by simp
  have "mergeChain fs ((c1 @ [D]) @ c2 @ D # c3) emptyResolved = Inr res"
    using mc split by simp
  then obtain s1 where s1: "mergeChain fs (c1 @ [D]) emptyResolved = Inr s1"
    and mc1: "mergeChain fs (c2 @ D # c3) s1 = Inr res"
    unfolding mergeChain_append [of fs "c1 @ [D]"] by (auto split: sum.splits)
  from mc1 obtain s2 where s2: "mergeChain fs c2 s1 = Inr s2"
    and mc2: "mergeChain fs (D # c3) s2 = Inr res"
    by (auto simp: mergeChain_append split: sum.splits)
  from mc2 have mc3: "mergeChain fs c3 (mergeFileOwn D docD s2) = Inr res"
    unfolding mergeChain_Cons_Inr using D by auto
  have "firstDefinedIn s1 rid f" using s1 f1 by (rule first_source_is_first_definer)
  then have "firstDefinedIn s2 rid f" using s2 by (rule firstDefinedIn_mergeChain)
  then have "\<lparr>ruleId = rid, conflict = ''Rule redefined in '' @ D, conflictSources = [f, D]\<rparr>
      \<in> set (conflicts (mergeFileOwn D docD s2))"
    using rule by (rule redefinition_recorded_mergeFileOwn)
  then have conf: "\<lparr>ruleId = rid, conflict = ''Rule redefined in '' @ D,
      conflictSources = [f, D]\<rparr> \<in> set (conflicts res)"
    using conflicts_mergeChain [OF mc3] by blast
  have "f = D \<longleftrightarrow> (\<forall>x\<in>set c1. \<not> definesRule fs rid x)"
  proof
    assume "f = D"
    with find_split [OF f] obtain a b where ab: "chain = a @ D # b"
      and none: "\<forall>y\<in>set a. \<not> definesRule fs rid y" by blast
    from none defD have "D \<notin> set a" by blast
    then have "takeWhile (\<lambda>x. x \<noteq> D) chain = a" unfolding ab by (rule takeWhile_upto)
    with tw none show "\<forall>x\<in>set c1. \<not> definesRule fs rid x" by simp
  next
    assume "\<forall>x\<in>set c1. \<not> definesRule fs rid x"
    with defD have "find (definesRule fs rid) chain = Some D"
      unfolding split by (rule find_first)
    with f show "f = D" by simp
  qed
  then have iff: "f = D \<longleftrightarrow>
      (\<forall>x\<in>set (takeWhile (\<lambda>x. x \<noteq> D) chain). \<not> definesRule fs rid x)"
    by (simp add: tw)
  show ?thesis using chain rr cnt two f conf iff by blast
qed

lemma no_cycle_by_depth:
  assumes "\<And>x y. (x, y) \<in> R \<Longrightarrow> (d y :: nat) < d x"
  shows "(x, x) \<notin> R\<^sup>+"
proof
  assume "(x, x) \<in> R\<^sup>+"
  moreover have "(a, b) \<in> R\<^sup>+ \<Longrightarrow> d b < d a" for a b
    by (induction rule: trancl_induct) (auto dest: assms)
  ultimately show False by fastforce
qed

lemma edges_fsDiamond:
  "extendsRel absolutePaths fsDiamond
     = {(''/A.json'', ''/B.json''), (''/A.json'', ''/C.json''),
        (''/B.json'', ''/D.json''), (''/C.json'', ''/D.json'')}"
  by (auto simp: extendsRel_def fsDiamond_def loadRuleSet_def absolutePaths_def document_def
        baseDoc_def extendsList_def split: if_splits)

lemma reach_fsDiamond:
  "(''/A.json'', x) \<in> (extendsRel absolutePaths fsDiamond)\<^sup>*
     \<Longrightarrow> x \<in> {''/A.json'', ''/B.json'', ''/C.json'', ''/D.json''}"
  by (induction rule: rtrancl_induct) (auto simp: edges_fsDiamond)

lemma diamond_chain:
  "resolveInheritanceChain absolutePaths fsDiamond ''/A.json'' {}
     = Inr [''/D.json'', ''/B.json'', ''/D.json'', ''/C.json'', ''/A.json'']"
  by (simp add: resolveInheritanceChain.simps fsDiamond_def loadRuleSet_def noExtends_def
      extendsList_def absolutePaths_def document_def baseDoc_def)

lemma owned_diamond_documents:
  "ownIds (document ps)" "ownIds baseDoc" "ownIds projectDoc"
  by (simp_all add: ownIds_def document_def baseDoc_def projectDoc_def entries_def
      inherited_def objectPrototypeMembers_def)

theorem diamond_merged_per_path_witness:
  "\<exists>chain resolved.
      resolveInheritanceChain absolutePaths fsDiamond ''/A.json'' {} = Inr chain
    \<and> resolveRules absolutePaths fsDiamond ''/A.json'' = Inr resolved
    \<and> count_list chain ''/D.json'' = 2
    \<and> find (definesRule fsDiamond ''r1'') chain = Some ''/D.json''
    \<and> \<lparr>ruleId = ''r1'', conflict = ''Rule redefined in '' @ ''/D.json'',
        conflictSources = [''/D.json'', ''/D.json'']\<rparr> \<in> set (conflicts resolved)"
proof -
  have acyclic: "\<forall>x. (''/A.json'', x) \<in> (extendsRel absolutePaths fsDiamond)\<^sup>*
      \<longrightarrow> (x, x) \<notin> (extendsRel absolutePaths fsDiamond)\<^sup>+"
    by (intro allI impI no_cycle_by_depth [where d = depthOf])
       (auto simp: edges_fsDiamond depthOf_def)
  have docs: "\<exists>rs. loadRuleSet fsDiamond x = Inr rs \<and> ownIds rs"
    if "(''/A.json'', x) \<in> (extendsRel absolutePaths fsDiamond)\<^sup>*" for x
  proof -
    from that have "x \<in> {''/A.json'', ''/B.json'', ''/C.json'', ''/D.json''}"
      by (rule reach_fsDiamond)
    then show ?thesis
      by (auto simp: fsDiamond_def loadRuleSet_def owned_diamond_documents)
  qed
  have present: "\<forall>x. (''/A.json'', x) \<in> (extendsRel absolutePaths fsDiamond)\<^sup>*
      \<longrightarrow> (\<exists>rs. loadRuleSet fsDiamond x = Inr rs)"
    using docs by blast
  have own: "\<forall>x. (''/A.json'', x) \<in> (extendsRel absolutePaths fsDiamond)\<^sup>*
      \<longrightarrow> (\<forall>rs. loadRuleSet fsDiamond x = Inr rs \<longrightarrow> ownIds rs)"
    using docs by fastforce
  have path1: "walk absolutePaths fsDiamond ''/A.json'' [0, 0] ''/D.json''"
    and path2: "walk absolutePaths fsDiamond ''/A.json'' [1, 0] ''/D.json''"
    by (simp_all add: walk_Cons_iff walk_Nil_iff fsDiamond_def loadRuleSet_def
        extendsList_def document_def absolutePaths_def)
  have D: "loadRuleSet fsDiamond ''/D.json'' = Inr baseDoc"
    by (simp add: fsDiamond_def loadRuleSet_def)
  have rule: "(''r1'', baseRule) \<in> set (entries (rules baseDoc))"
    by (simp add: baseDoc_def entries_def)
  have ne: "[0::nat, 0] \<noteq> [1, 0]" by simp
  from diamond_merged_per_path [OF acyclic present own path1 path2 ne D rule]
  obtain chain resolved f
    where chain: "resolveInheritanceChain absolutePaths fsDiamond ''/A.json'' {} = Inr chain"
      and rr: "resolveRules absolutePaths fsDiamond ''/A.json'' = Inr resolved"
      and f: "find (definesRule fsDiamond ''r1'') chain = Some f"
      and conf: "\<lparr>ruleId = ''r1'', conflict = ''Rule redefined in '' @ ''/D.json'',
                  conflictSources = [f, ''/D.json'']\<rparr> \<in> set (conflicts resolved)"
    by blast
  have eq: "chain = [''/D.json'', ''/B.json'', ''/D.json'', ''/C.json'', ''/A.json'']"
    using chain diamond_chain by simp
  have "definesRule fsDiamond ''r1'' ''/D.json''"
    by (simp add: definesRule_def D baseDoc_def entries_def)
  then have fD: "f = ''/D.json''" using f by (simp add: eq)
  have "count_list chain ''/D.json'' = 2" by (simp add: eq)
  then show ?thesis using chain rr f conf unfolding fD by blast
qed

text \<open>
  The claim as first stated has the conflict cite D's own file as the first source for
  every rule of D. In the deeper diamond D redefines a rule of its parent E, and the
  conflicts recorded in D's file cite E.
\<close>

theorem deep_diamond_cites_parent:
  "resolveInheritanceChain absolutePaths fsDeep ''/A.json'' {}
     = Inr [''/E.json'', ''/D.json'', ''/B.json'', ''/E.json'', ''/D.json'', ''/C.json'',
            ''/A.json'']
   \<and> map_sum id conflicts (resolveRules absolutePaths fsDeep ''/A.json'')
     = Inr [\<lparr>ruleId = ''r1'', conflict = ''Rule redefined in /D.json'',
             conflictSources = [''/E.json'', ''/D.json'']\<rparr>,
            \<lparr>ruleId = ''r1'', conflict = ''Rule redefined in /E.json'',
             conflictSources = [''/E.json'', ''/E.json'']\<rparr>,
            \<lparr>ruleId = ''r1'', conflict = ''Rule redefined in /D.json'',
             conflictSources = [''/E.json'', ''/D.json'']\<rparr>]"
  by (simp add: resolveRules_def resolveInheritanceChain.simps fsDeep_def loadRuleSet_def
      noExtends_def extendsList_def absolutePaths_def document_def baseDoc_def
      entries_def emptyResolved_def merge_eval)

text \<open>
  The diamond of the claim with any documents whose ids are not inherited names: A
  extends B and C, each of which extends D, and D extends nothing.
\<close>

lemma canonical_diamond:
  assumes A: "loadRuleSet fs A = Inr docA" and eA: "extends docA = Some [b, c]"
    and B: "loadRuleSet fs (rp A b) = Inr docB" and eB: "extends docB = Some [d1]"
    and C: "loadRuleSet fs (rp A c) = Inr docC" and eC: "extends docC = Some [d2]"
    and D1: "rp (rp A b) d1 = D" and D2: "rp (rp A c) d2 = D"
    and D: "loadRuleSet fs D = Inr docD" and eD: "noExtends docD"
    and own: "ownIds docA" "ownIds docB" "ownIds docC" "ownIds docD"
  shows "resolveInheritanceChain rp fs A {} = Inr [D, rp A b, D, rp A c, A]
       \<and> (\<exists>resolved. resolveRules rp fs A = Inr resolved
            \<and> (\<forall>(rid, r) \<in> set (entries (rules docD)).
                  \<lparr>ruleId = rid, conflict = ''Rule redefined in '' @ D,
                    conflictSources = [D, D]\<rparr> \<in> set (conflicts resolved)))"
proof -
  have nA: "\<not> noExtends docA" and lA: "extendsList docA = [b, c]"
    using eA by (simp_all add: noExtends_def extendsList_def)
  have nB: "\<not> noExtends docB" and lB: "extendsList docB = [d1]"
    using eB by (simp_all add: noExtends_def extendsList_def)
  have nC: "\<not> noExtends docC" and lC: "extendsList docC = [d2]"
    using eC by (simp_all add: noExtends_def extendsList_def)
  have BA: "rp A b \<noteq> A" using A B eA eB by auto
  have CA: "rp A c \<noteq> A" using A C eA eC by auto
  have DA: "D \<noteq> A" using A D nA eD by auto
  have DB: "D \<noteq> rp A b" using B D nB eD by auto
  have DC: "D \<noteq> rp A c" using C D nC eD by auto
  have rD1: "resolveInheritanceChain rp fs D {rp A b, A} = Inr [D]"
    using DA DB by (intro resolve_leaf [OF _ D eD]) simp
  have rD2: "resolveInheritanceChain rp fs D {rp A c, A} = Inr [D]"
    using DA DC by (intro resolve_leaf [OF _ D eD]) simp
  have rB: "resolveInheritanceChain rp fs (rp A b) {A} = Inr [D, rp A b]"
    using BA rD1 by (subst resolve_node [OF _ B nB]) (simp_all add: lB D1)
  have rC: "resolveInheritanceChain rp fs (rp A c) {A} = Inr [D, rp A c]"
    using CA rD2 by (subst resolve_node [OF _ C nC]) (simp_all add: lC D2)
  have chain: "resolveInheritanceChain rp fs A {} = Inr [D, rp A b, D, rp A c, A]"
    using rB rC by (subst resolve_node [OF _ A nA]) (simp_all add: lA)
  define s1 where "s1 = mergeFileOwn D docD emptyResolved"
  define s2 where "s2 = mergeFileOwn (rp A b) docB s1"
  define s3 where "s3 = mergeFileOwn D docD s2"
  define s4 where "s4 = mergeFileOwn (rp A c) docC s3"
  define s5 where "s5 = mergeFileOwn A docA s4"
  have res: "resolveRules rp fs A = Inr s5"
    by (simp add: resolveRules_def chain A B C D own mergeFile_own
        s1_def s2_def s3_def s4_def s5_def)
  have "\<lparr>ruleId = rid, conflict = ''Rule redefined in '' @ D, conflictSources = [D, D]\<rparr>
          \<in> set (conflicts s5)" if mem: "(rid, r) \<in> set (entries (rules docD))" for rid r
  proof -
    have "rid \<in> fst ` set (entries (rules docD))" using mem by (auto intro: rev_image_eqI)
    then have "firstDefinedIn s1 rid D"
      unfolding s1_def
      by (intro firstDefinedIn_mergeFileOwn_new inStep_empty) (simp_all add: emptyResolved_def)
    then have "firstDefinedIn s2 rid D"
      unfolding s2_def by (rule firstDefinedIn_mergeFileOwn)
    then have "\<lparr>ruleId = rid, conflict = ''Rule redefined in '' @ D, conflictSources = [D, D]\<rparr>
          \<in> set (conflicts s3)"
      unfolding s3_def using mem by (rule redefinition_recorded_mergeFileOwn)
    then show ?thesis
      using conflicts_mergeFileOwn [of s3 "rp A c" docC] conflicts_mergeFileOwn [of s4 A docA]
      unfolding s4_def s5_def by blast
  qed
  then show ?thesis using chain res by auto
qed

section \<open>Override after redefinition\<close>

lemma spread_is_shallow_patch: "spread r patch = spec_shallow_patch r patch"
  by (simp add: spread_def spreadField_def spec_shallow_patch_def split: option.splits)

text \<open>
  C3, as amended. In a resolved chain, none of whose documents has an inherited name
  among its ids, let A be the first document that defines rule \<open>r1\<close>, and let a later
  document B have \<open>r1\<close> both in its \<open>rules\<close> (with value \<open>rb\<close>) and in its \<open>overrides\<close>
  (with patch \<open>ov\<close>), no document after B naming \<open>r1\<close>. Then the merged \<open>r1\<close> is B's
  redefinition shallow-patched with B's override: each field the override has is the
  override's, each other field is the redefinition's, because a document's rules are
  merged before its overrides are applied. And the conflict \<open>Rule redefined in B\<close> is
  recorded for \<open>r1\<close> with the sources \<open>[A, B]\<close>. The keys of an object are distinct,
  which the two \<open>distinct\<close> hypotheses say of the entry lists.
\<close>

theorem override_after_redefinition:
  assumes chain: "resolveInheritanceChain rp fs p {} = Inr (chain1 @ fA # chain2 @ fB # chain3)"
    and own: "\<forall>f\<in>set (chain1 @ fA # chain2 @ fB # chain3).
                \<forall>doc. loadRuleSet fs f = Inr doc \<longrightarrow> ownIds doc"
    and first: "\<forall>f\<in>set chain1. \<forall>doc. loadRuleSet fs f = Inr doc \<longrightarrow>
                  r1 \<notin> fst ` set (entries (rules doc))"
    and A: "loadRuleSet fs fA = Inr docA"
    and defA: "(r1, ra) \<in> set (entries (rules docA))"
    and B: "loadRuleSet fs fB = Inr docB"
    and defB: "(r1, rb) \<in> set (entries (rules docB))"
    and distB: "distinct (map fst (entries (rules docB)))"
    and ovB: "(r1, ov) \<in> set (entries (overrides docB))"
    and distO: "distinct (map fst (entries (overrides docB)))"
    and last: "\<forall>f\<in>set chain3. \<forall>doc. loadRuleSet fs f = Inr doc \<longrightarrow>
                  r1 \<notin> fst ` set (entries (rules doc))
                  \<and> r1 \<notin> fst ` set (entries (overrides doc))"
  shows "\<exists>resolved. resolveRules rp fs p = Inr resolved
           \<and> map_of (mergedRules resolved) r1 = Some (spec_shallow_patch rb ov)
           \<and> \<lparr>ruleId = r1, conflict = ''Rule redefined in '' @ fB,
               conflictSources = [fA, fB]\<rparr> \<in> set (conflicts resolved)"
proof -
  from resolveRules_total [OF chain own] obtain res
    where rr: "resolveRules rp fs p = Inr res"
      and mc: "mergeChain fs (chain1 @ fA # chain2 @ fB # chain3) emptyResolved = Inr res"
    by blast
  from mc obtain s1 where s1: "mergeChain fs chain1 emptyResolved = Inr s1"
    and mc1: "mergeChain fs (fA # chain2 @ fB # chain3) s1 = Inr res"
    by (auto simp: mergeChain_append split: sum.splits)
  define s2 where "s2 = mergeFileOwn fA docA s1"
  from mc1 have mc2: "mergeChain fs (chain2 @ fB # chain3) s2 = Inr res"
    unfolding mergeChain_Cons_Inr s2_def using A by auto
  then obtain s3 where s3: "mergeChain fs chain2 s2 = Inr s3"
    and mc3: "mergeChain fs (fB # chain3) s3 = Inr res"
    by (auto simp: mergeChain_append split: sum.splits)
  define s4 where "s4 = mergeFileOwn fB docB s3"
  from mc3 have mc4: "mergeChain fs chain3 s4 = Inr res"
    unfolding mergeChain_Cons_Inr s4_def using B by auto
  have in1: "inStep s1" using inStep_empty s1 by (rule inStep_mergeChain)
  have none1: "map_of (mergedRules s1) r1 = None"
    using s1 _ first by (rule mergeChain_undefined) (simp add: emptyResolved_def)
  have "firstDefinedIn (foldl (mergeRuleOwn fA) s1 (entries (rules docA))) r1 fA"
    using in1 none1 defA by (rule firstDefinedIn_foldl_new)
  then have "firstDefinedIn s2 r1 fA"
    unfolding s2_def mergeFileOwn_def by (rule firstDefinedIn_foldl_applyOverrideOwn)
  then have fd3: "firstDefinedIn s3 r1 fA" using s3 by (rule firstDefinedIn_mergeChain)
  then have "\<lparr>ruleId = r1, conflict = ''Rule redefined in '' @ fB,
               conflictSources = [fA, fB]\<rparr> \<in> set (conflicts s4)"
    unfolding s4_def using defB by (rule redefinition_recorded_mergeFileOwn)
  then have conf: "\<lparr>ruleId = r1, conflict = ''Rule redefined in '' @ fB,
               conflictSources = [fA, fB]\<rparr> \<in> set (conflicts res)"
    using conflicts_mergeChain [OF mc4] by blast
  have "map_of (mergedRules (foldl (mergeRuleOwn fB) s3 (entries (rules docB)))) r1 = Some rb"
    using distB defB by (rule foldl_mergeRuleOwn_defines)
  then have "map_of (mergedRules s4) r1 = Some (spread rb ov)"
    unfolding s4_def mergeFileOwn_def using distO ovB by (intro foldl_applyOverrideOwn_patches)
  then have "map_of (mergedRules res) r1 = Some (spec_shallow_patch rb ov)"
    using mergeChain_other [OF mc4 last] by (simp add: spread_is_shallow_patch)
  then show ?thesis using rr conf by blast
qed

text \<open>
  The example: the merged rule has the project's fields, with \<open>enabled\<close> and \<open>reason\<close>
  from the override.
\<close>

theorem override_after_redefinition_witness:
  "\<exists>resolved. resolveRules absolutePaths fsOverride ''/project.json'' = Inr resolved
     \<and> map_of (mergedRules resolved) ''r1''
         = Some (projectRule\<lparr>enabled := Some False, reason := Some ''not used here''\<rparr>)
     \<and> \<lparr>ruleId = ''r1'', conflict = ''Rule redefined in '' @ ''/project.json'',
         conflictSources = [''/base.json'', ''/project.json'']\<rparr> \<in> set (conflicts resolved)"
proof -
  have chain: "resolveInheritanceChain absolutePaths fsOverride ''/project.json'' {}
      = Inr ([] @ ''/base.json'' # [] @ ''/project.json'' # [])"
    by (simp add: resolveInheritanceChain.simps fsOverride_def loadRuleSet_def noExtends_def
        extendsList_def absolutePaths_def baseDoc_def projectDoc_def)
  have A: "loadRuleSet fsOverride ''/base.json'' = Inr baseDoc"
    and B: "loadRuleSet fsOverride ''/project.json'' = Inr projectDoc"
    by (simp_all add: fsOverride_def loadRuleSet_def)
  have own: "\<forall>f\<in>set ([] @ ''/base.json'' # [] @ ''/project.json'' # []).
      \<forall>doc. loadRuleSet fsOverride f = Inr doc \<longrightarrow> ownIds doc"
    using A B owned_diamond_documents by auto
  have patched: "spec_shallow_patch projectRule disable
      = projectRule\<lparr>enabled := Some False, reason := Some ''not used here''\<rparr>"
    by (simp add: spec_shallow_patch_def projectRule_def disable_def emptyRule_def)
  from override_after_redefinition [where rp = absolutePaths and fs = fsOverride
      and p = "''/project.json''" and ?r1.0 = "''r1''" and ra = baseRule and rb = projectRule
      and ov = disable, OF chain own _ A _ B]
  show ?thesis
    unfolding patched by (simp add: baseDoc_def projectDoc_def entries_def)
qed

text \<open>
  The claim as first stated takes any document A that defines \<open>r1\<close> before B, and lets
  documents follow B. In the chain \<open>[root, base, project, top]\<close>, in which every document
  defines \<open>r1\<close> and \<open>project\<close> overrides it as well, take \<open>base\<close> for A and \<open>project\<close> for
  B: the conflict recorded in \<open>project\<close> cites \<open>root\<close>, the first source, and not
  \<open>base\<close>; and the merged rule is the one of \<open>top\<close>, not the patched rule of \<open>project\<close>.
\<close>

theorem redefinition_cites_first_source:
  "resolveInheritanceChain absolutePaths fsLayers ''/top.json'' {}
     = Inr [''/root.json'', ''/base.json'', ''/project.json'', ''/top.json'']
   \<and> resolveRules absolutePaths fsLayers ''/top.json''
     = Inr \<lparr>mergedRules = [(''r1'', topRule)],
            sources = [(''r1'', [''/root.json'', ''/base.json'', ''/project.json'',
                                ''/project.json (override)'', ''/top.json''])],
            conflicts =
              [\<lparr>ruleId = ''r1'', conflict = ''Rule redefined in /base.json'',
                conflictSources = [''/root.json'', ''/base.json'']\<rparr>,
               \<lparr>ruleId = ''r1'', conflict = ''Rule redefined in /project.json'',
                conflictSources = [''/root.json'', ''/project.json'']\<rparr>,
               \<lparr>ruleId = ''r1'', conflict = ''Rule redefined in /top.json'',
                conflictSources = [''/root.json'', ''/top.json'']\<rparr>]\<rparr>
   \<and> topRule \<noteq> spec_shallow_patch projectRule disable"
  by (simp add: resolveRules_def resolveInheritanceChain.simps fsLayers_def loadRuleSet_def
      noExtends_def extendsList_def absolutePaths_def baseDoc_def projectDoc_def
      entries_def emptyResolved_def merge_eval spec_shallow_patch_def topRule_def
      projectRule_def disable_def emptyRule_def)
section \<open>Order of the effective rules\<close>

text \<open>
  On rules that carry one of the four literals, the comparator of the code orders by the
  rank of the specification, so the sort is the stable sort by that rank.
\<close>

lemma severityRank_literal:
  "spec_severity_literal r \<Longrightarrow> severityRank r = Some (spec_severity_rank r)"
  by (auto simp: spec_severity_literal_def spec_severity_rank_def severityRank_def
      severityOrder_def)

lemma comparesGreater_rank:
  "spec_severity_literal x \<Longrightarrow> spec_severity_literal y
     \<Longrightarrow> comparesGreater (compareSeverity x y)
         \<longleftrightarrow> \<not> spec_severity_rank x \<le> spec_severity_rank y"
  by (auto simp: comparesGreater_def compareSeverity_def severityRank_literal)

lemma insertSorted_insort:
  "spec_severity_literal x \<Longrightarrow> \<forall>y\<in>set ys. spec_severity_literal y
     \<Longrightarrow> insertSorted compareSeverity x ys = insort_key spec_severity_rank x ys"
  by (induction ys) (simp_all add: comparesGreater_rank)

lemma sortStable_sort_key:
  "\<forall>x\<in>set xs. spec_severity_literal x
     \<Longrightarrow> sortStable compareSeverity xs = sort_key spec_severity_rank xs"
proof (induction xs)
  case Nil
  show ?case by (simp add: sortStable_def)
next
  case (Cons x xs)
  then have "sortStable compareSeverity xs = sort_key spec_severity_rank xs" by simp
  moreover have "\<forall>y\<in>set (sort_key spec_severity_rank xs). spec_severity_literal y"
    using Cons.prems by simp
  ultimately show ?case
    using Cons.prems by (simp add: sortStable_def sort_key_def insertSorted_insort)
qed

lemma effectiveOf_sort_key:
  assumes "\<forall>(k, r)\<in>set merged. spec_severity_literal r"
  shows "effectiveOf merged
     = sort_key spec_severity_rank (filter (\<lambda>r. enabled r = Some True) (map snd merged))"
proof -
  have "\<forall>x\<in>set (filter isEnabled (map snd merged)). spec_severity_literal x"
    using assms by auto
  then have "effectiveOf merged = sort_key spec_severity_rank (filter isEnabled (map snd merged))"
    by (simp add: effectiveOf_def sortStable_sort_key)
  also have "filter isEnabled (map snd merged)
      = filter (\<lambda>r. enabled r = Some True) (map snd merged)"
    by (rule filter_cong) (simp_all add: isEnabled_def)
  finally show ?thesis .
qed

text \<open>
  C5, as amended. Let a chain resolve to a merged rule set whose rules all carry one of
  the four severity literals, no rule id of the chain being an array index. Then the keys
  of the merged set are the rule ids in merge-encounter order, and the effective rules
  are the rules of the merged set with \<open>enabled = true\<close>, none with \<open>enabled = false\<close> or
  without the field, stably sorted by the rank \<open>CRITICAL < HIGH < MEDIUM < LOW\<close>: they
  are in ascending rank, and the rules of each rank are in the order they have in the
  merged set.
\<close>

theorem effective_rules_sorted:
  assumes chain: "resolveInheritanceChain rp fs p {} = Inr chain"
    and rr: "resolveRules rp fs p = Inr resolved"
    and literals: "\<forall>(k, r)\<in>set (mergedRules resolved). spec_severity_literal r"
    and ids: "\<forall>f\<in>set chain. \<forall>k\<in>set (ruleIdsOf fs f). \<not> isArrayIndex k"
  shows "\<exists>out. getEffectiveRules rp fs p = Inr out
         \<and> map fst (mergedRules resolved)
             = spec_encounter_order {} (concat (map (ruleIdsOf fs) chain))
         \<and> out = sort_key spec_severity_rank
                   (filter (\<lambda>r. enabled r = Some True) (map snd (mergedRules resolved)))
         \<and> sorted (map spec_severity_rank out)
         \<and> (\<forall>n. filter (\<lambda>r. spec_severity_rank r = n) out
                 = filter (\<lambda>r. spec_severity_rank r = n)
                     (filter (\<lambda>r. enabled r = Some True) (map snd (mergedRules resolved))))"
proof -
  from rr chain have mc: "mergeChain fs chain emptyResolved = Inr resolved"
    by (simp add: resolveRules_def)
  from keys_mergeChain [OF mc ids]
  have keys: "map fst (mergedRules resolved)
      = spec_encounter_order {} (concat (map (ruleIdsOf fs) chain))"
    by (simp add: emptyResolved_def)
  have out: "getEffectiveRules rp fs p = Inr (sort_key spec_severity_rank
      (filter (\<lambda>r. enabled r = Some True) (map snd (mergedRules resolved))))"
    by (simp add: getEffectiveRules_def rr effectiveOf_sort_key [OF literals])
  show ?thesis
    using keys out by (simp add: sort_key_stable)
qed

lemma resolveRules_fsEffective:
  "resolveRules absolutePaths fsEffective ''/project.json''
     = Inr \<lparr>mergedRules = mergedExample,
            sources = [(''rule-a'', [''/base.json'']), (''rule-b'', [''/base.json'']),
                       (''rule-c'', [''/base.json'']), (''rule-d'', [''/project.json'']),
                       (''rule-e'', [''/project.json'']), (''rule-f'', [''/project.json''])],
            conflicts = []\<rparr>"
  by (simp add: resolveRules_def resolveInheritanceChain.simps fsEffective_def loadRuleSet_def
      noExtends_def extendsList_def absolutePaths_def mergedExample_def
      entries_def emptyResolved_def merge_eval)

text \<open>
  The example: the disabled rule is gone, the two critical rules lead in their merge
  order, and the one enabled high rule follows.
\<close>

theorem effective_rules_sorted_witness:
  "getEffectiveRules absolutePaths fsEffective ''/project.json''
     = Inr [ruleWith ''second'' ''CRITICAL'' True, ruleWith ''sixth'' ''CRITICAL'' True,
            ruleWith ''fourth'' ''HIGH'' True, ruleWith ''first'' ''MEDIUM'' True,
            ruleWith ''third'' ''LOW'' True]
   \<and> map fst mergedExample
     = spec_encounter_order {}
         (concat (map (ruleIdsOf fsEffective) [''/base.json'', ''/project.json'']))"
proof -
  have chain: "resolveInheritanceChain absolutePaths fsEffective ''/project.json'' {}
      = Inr [''/base.json'', ''/project.json'']"
    by (simp add: resolveInheritanceChain.simps fsEffective_def loadRuleSet_def noExtends_def
        extendsList_def absolutePaths_def)
  have literals: "\<forall>(k, r)\<in>set (mergedRules \<lparr>mergedRules = mergedExample,
            sources = [(''rule-a'', [''/base.json'']), (''rule-b'', [''/base.json'']),
                       (''rule-c'', [''/base.json'']), (''rule-d'', [''/project.json'']),
                       (''rule-e'', [''/project.json'']), (''rule-f'', [''/project.json''])],
            conflicts = []\<rparr>). spec_severity_literal r"
    by (simp add: mergedExample_def spec_severity_literal_def ruleWith_def emptyRule_def)
  have ids: "\<forall>f\<in>set [''/base.json'', ''/project.json''].
      \<forall>k\<in>set (ruleIdsOf fsEffective f). \<not> isArrayIndex k"
    by (auto simp: ruleIdsOf_def fsEffective_def loadRuleSet_def entries_def mergedExample_def
        isArrayIndex_def)
  from effective_rules_sorted [OF chain resolveRules_fsEffective literals ids]
  show ?thesis
    by (simp add: mergedExample_def ruleWith_def emptyRule_def spec_severity_rank_def)
qed

text \<open>
  The claim as first stated keeps merge-encounter order among rules of equal severity
  for every merged rule set. An object lists its array-index keys first, in numeric
  order: when the base document defines the rule \<open>2\<close> and the project document, merged
  after it, the rule \<open>1\<close>, both \<open>HIGH\<close> and enabled, the rule \<open>1\<close> comes first.
\<close>

theorem numeric_ids_reorder_ties:
  "resolveInheritanceChain absolutePaths fsNumbered ''/project.json'' {}
     = Inr [''/base.json'', ''/project.json'']
   \<and> ruleIdsOf fsNumbered ''/base.json'' = [''2'']
   \<and> ruleIdsOf fsNumbered ''/project.json'' = [''1'']
   \<and> resolveRules absolutePaths fsNumbered ''/project.json''
     = Inr \<lparr>mergedRules = [(''1'', ruleWith ''met second'' ''HIGH'' True),
                           (''2'', ruleWith ''met first'' ''HIGH'' True)],
            sources = [(''1'', [''/project.json'']), (''2'', [''/base.json''])],
            conflicts = []\<rparr>
   \<and> getEffectiveRules absolutePaths fsNumbered ''/project.json''
     = Inr [ruleWith ''met second'' ''HIGH'' True, ruleWith ''met first'' ''HIGH'' True]"
  by (simp add: getEffectiveRules_def resolveRules_def resolveInheritanceChain.simps
      fsNumbered_def loadRuleSet_def noExtends_def extendsList_def absolutePaths_def
      ruleIdsOf_def entries_def emptyResolved_def merge_eval effectiveOf_def sortStable_def
      isEnabled_def compareSeverity_def severityRank_def severityOrder_def
      comparesGreater_def ruleWith_def emptyRule_def)

section \<open>Properties of validation\<close>

lemma dangling_message:
  "strIncludes (''Override for non-existent rule in '' @ fp) ''non-existent''"
  by simp

lemma redefinition_message:
  "strIncludes (''Rule redefined in '' @ fp) ''non-existent'' = strIncludes fp ''non-existent''"
  by simp

lemma distinct_mergeRuleOwn:
  "distinct (map fst (mergedRules acc))
     \<Longrightarrow> distinct (map fst (mergedRules (mergeRuleOwn fp acc e)))"
  by (cases e) (simp add: mergeRuleOwn_def distinct_assign)

lemma distinct_applyOverrideOwn:
  "distinct (map fst (mergedRules acc))
     \<Longrightarrow> distinct (map fst (mergedRules (applyOverrideOwn fp acc e)))"
  by (simp add: keys_applyOverrideOwn)

lemma distinct_foldl_mergeRuleOwn:
  "distinct (map fst (mergedRules acc))
     \<Longrightarrow> distinct (map fst (mergedRules (foldl (mergeRuleOwn fp) acc es)))"
  by (induction es arbitrary: acc) (auto intro: distinct_mergeRuleOwn)

lemma distinct_mergeFileOwn:
  "distinct (map fst (mergedRules acc))
     \<Longrightarrow> distinct (map fst (mergedRules (mergeFileOwn fp doc acc)))"
  by (simp add: mergeFileOwn_def keys_foldl_applyOverrideOwn distinct_foldl_mergeRuleOwn)

lemma distinct_mergeChain:
  "distinct (map fst (mergedRules acc)) \<Longrightarrow> mergeChain fs chain acc = Inr res
     \<Longrightarrow> distinct (map fst (mergedRules res))"
  by (induction chain arbitrary: acc)
     (auto simp: mergeChain_Cons_Inr simp del: mergeChain.simps(2) intro: distinct_mergeFileOwn)

lemma distinct_resolveRules:
  "resolveRules rp fs p = Inr res \<Longrightarrow> distinct (map fst (mergedRules res))"
  by (auto simp: resolveRules_def emptyResolved_def split: sum.splits
      intro: distinct_mergeChain [where acc = emptyResolved, unfolded emptyResolved_def, simplified])

lemma duplicateErrors_distinct:
  "distinct ks \<Longrightarrow> set ks \<inter> set seen = {} \<Longrightarrow> duplicateErrors ks seen = []"
  by (induction ks arbitrary: seen) auto

lemma truthy_iff: "truthy v \<longleftrightarrow> v \<noteq> None \<and> v \<noteq> Some []"
  by (cases v) (simp_all add: truthy_def)

lemma requiredFieldErrors_none:
  "requiredFieldErrors (rid, r) = [] \<longleftrightarrow> spec_required_fields r"
  by (auto simp: requiredFieldErrors_def spec_required_fields_def truthy_iff)

lemma all_requiredFieldErrors_none:
  "concat (map requiredFieldErrors merged) = []
     \<longleftrightarrow> list_all (\<lambda>(k, r). spec_required_fields r) merged"
  by (induction merged) (auto simp: requiredFieldErrors_none)


lemma validateResolved_valid:
  "valid (validateResolved resolved) \<longleftrightarrow> errors (validateResolved resolved) = []"
  by (simp add: validateResolved_def Let_def)

subsection \<open>Dangling overrides and redefinitions\<close>





text \<open>
  Why the second half speaks of the paths: the test for a dangling override is a search
  for \<open>non-existent\<close> in the message, and the message of a redefinition ends with the
  path. In a directory of that name the redefinition of the first example is an error.
\<close>

lemma redefinition_under_odd_path:
  "validateRules absolutePaths fsOddPath ''/non-existent/project.json''
     = Inr \<lparr>valid = False, errors = [''Rule redefined in /non-existent/project.json''],
            warnings = []\<rparr>"
  by (simp add: validateRules_def resolveRules_def resolveInheritanceChain.simps
      fsOddPath_def loadRuleSet_def noExtends_def extendsList_def absolutePaths_def
      baseDoc_def projectDoc_def entries_def emptyResolved_def merge_eval
      validateResolved_def conflictErrors_def conflictWarnings_def isDangling_def
      requiredFieldErrors_def spread_def spreadField_def projectRule_def disable_def
      baseRule_def emptyRule_def truthy_def)

text \<open>
  And why the chains are taken without inherited names: an override of \<open>toString\<close>, which
  no document defines, is not recorded as dangling; resolution throws instead, and so does
  \<open>validateRules\<close>.
\<close>

lemma inherited_override_throws:
  "validateRules absolutePaths fsInherited ''/rules.json''
     = Inl (TypeError ''sources[ruleId].push is not a function'')"
  by (simp add: validateRules_def resolveRules_def resolveInheritanceChain.simps
      fsInherited_def danglingDoc_def loadRuleSet_def noExtends_def entries_def
      emptyResolved_def merge_eval pushTypeError_def)

subsection \<open>Required fields and severities\<close>

lemma validateResolvedPath_valid:
  "valid (validateResolvedPath rp fs p) \<longleftrightarrow> errors (validateResolvedPath rp fs p) = []"
  by (simp add: validateResolvedPath_def Let_def split: sum.splits)

lemma readAndParse_valid:
  "valid (readAndParse rp fs p) \<longleftrightarrow> errors (readAndParse rp fs p) = []"
  by (simp add: readAndParse_def validateResolvedPath_valid split: option.splits fileContent.splits)

lemma validateConstitutionalRules_valid:
  "valid (validateConstitutionalRules rp fs found arg)
     \<longleftrightarrow> errors (validateConstitutionalRules rp fs found arg) = []"
  by (simp add: validateConstitutionalRules_def readAndParse_valid noRulesFile_def
      split: option.splits)

lemma validateConstitutionalRules_report:
  assumes "p \<noteq> []" and "map_of fs p = Some (Doc d)" and "resolveRules rp fs p = Inr resolved"
  shows "errors (validateConstitutionalRules rp fs found (Some p))
           = (if valid (validateResolved resolved) then []
              else errors (validateResolved resolved))
             @ conflictErrors (conflicts resolved)
             @ concat (map cliRuleErrors (mergedRules resolved))"
  using assms
  by (simp add: validateConstitutionalRules_def truthy_def readAndParse_def
      validateResolvedPath_def validateRules_def Let_def)

lemma cliRuleErrors_none:
  assumes "name r \<noteq> None" "name r \<noteq> Some []" "description r \<noteq> None"
    "description r \<noteq> Some []" "category r \<noteq> None" "category r \<noteq> Some []"
    "severity r = Some ''CRITICAL'' \<or> severity r = Some ''HIGH''
       \<or> severity r = Some ''MEDIUM'' \<or> severity r = Some ''LOW''"
  shows "cliRuleErrors (rid, r) = []"
  using assms by (auto simp: cliRuleErrors_def truthy_iff allowedSeverities_def)

text \<open>
  C6. For a rules file that resolves to a merged rule set, the validation of the
  command-line validator \<open>validateConstitutionalRules\<close>, which runs \<open>validateRules\<close> and
  adds the test of the severity literal, reports for each rule of the merged set: an
  error when its name, its description or its severity is missing or empty, and an error
  when its severity is not empty and not one of \<open>CRITICAL\<close>, \<open>HIGH\<close>, \<open>MEDIUM\<close>, \<open>LOW\<close>.
  Its \<open>valid\<close> is true exactly when its error list is empty, and the list is empty when
  there is no conflict and every rule has name, description, category and one of the
  four severities. \<open>validateRules\<close>, on its own, likewise reports the three required
  fields, in its own wording, and has \<open>valid\<close> true exactly when its error list is empty.
\<close>

theorem required_fields_checked:
  assumes rr: "resolveRules rp fs p = Inr resolved"
    and p: "p \<noteq> []" and present: "map_of fs p = Some (Doc d)"
  shows "(let report = validateConstitutionalRules rp fs found (Some p)
          in (valid report \<longleftrightarrow> errors report = [])
            \<and> (\<forall>(rid, r)\<in>set (mergedRules resolved).
                  ((name r = None \<or> name r = Some []) \<longrightarrow>
                     ''Rule '' @ rid @ '': missing required field '' @ [CHR 0x27] @ ''name''
                       @ [CHR 0x27] \<in> set (errors report))
                \<and> ((description r = None \<or> description r = Some []) \<longrightarrow>
                     ''Rule '' @ rid @ '': missing required field '' @ [CHR 0x27]
                       @ ''description'' @ [CHR 0x27] \<in> set (errors report))
                \<and> ((severity r = None \<or> severity r = Some []) \<longrightarrow>
                     ''Rule '' @ rid @ '': missing required field '' @ [CHR 0x27]
                       @ ''severity'' @ [CHR 0x27] \<in> set (errors report))
                \<and> (\<forall>s. severity r = Some s \<and> s \<noteq> [] \<and> s \<noteq> ''CRITICAL'' \<and> s \<noteq> ''HIGH''
                        \<and> s \<noteq> ''MEDIUM'' \<and> s \<noteq> ''LOW'' \<longrightarrow>
                     ''Rule '' @ rid @ '': invalid severity '' @ [CHR 0x27] @ s @ [CHR 0x27]
                       @ '' (must be CRITICAL, HIGH, MEDIUM, or LOW)'' \<in> set (errors report)))
            \<and> (conflicts resolved = []
                \<and> list_all (\<lambda>(rid, r). name r \<noteq> None \<and> name r \<noteq> Some []
                      \<and> description r \<noteq> None \<and> description r \<noteq> Some []
                      \<and> category r \<noteq> None \<and> category r \<noteq> Some []
                      \<and> (severity r = Some ''CRITICAL'' \<or> severity r = Some ''HIGH''
                         \<or> severity r = Some ''MEDIUM'' \<or> severity r = Some ''LOW''))
                    (mergedRules resolved)
                \<longrightarrow> errors report = []))
       \<and> (\<exists>report. validateRules rp fs p = Inr report
            \<and> (valid report \<longleftrightarrow> errors report = [])
            \<and> (\<forall>(rid, r)\<in>set (mergedRules resolved).
                  ((name r = None \<or> name r = Some []) \<longrightarrow>
                     ''Rule '' @ rid @ '' missing required field: name'' \<in> set (errors report))
                \<and> ((description r = None \<or> description r = Some []) \<longrightarrow>
                     ''Rule '' @ rid @ '' missing required field: description''
                       \<in> set (errors report))
                \<and> ((severity r = None \<or> severity r = Some []) \<longrightarrow>
                     ''Rule '' @ rid @ '' missing required field: severity''
                       \<in> set (errors report))))"
proof
  let ?report = "validateConstitutionalRules rp fs found (Some p)"
  have errs: "errors ?report
      = (if valid (validateResolved resolved) then [] else errors (validateResolved resolved))
        @ conflictErrors (conflicts resolved)
        @ concat (map cliRuleErrors (mergedRules resolved))"
    using p present rr by (rule validateConstitutionalRules_report)
  have each: "set (cliRuleErrors (rid, r)) \<subseteq> set (errors ?report)"
    if "(rid, r) \<in> set (mergedRules resolved)" for rid r
    using that unfolding errs by auto
  have fields: "((name r = None \<or> name r = Some []) \<longrightarrow>
         ''Rule '' @ rid @ '': missing required field '' @ [CHR 0x27] @ ''name''
           @ [CHR 0x27] \<in> set (cliRuleErrors (rid, r)))
      \<and> ((description r = None \<or> description r = Some []) \<longrightarrow>
         ''Rule '' @ rid @ '': missing required field '' @ [CHR 0x27]
           @ ''description'' @ [CHR 0x27] \<in> set (cliRuleErrors (rid, r)))
      \<and> ((severity r = None \<or> severity r = Some []) \<longrightarrow>
         ''Rule '' @ rid @ '': missing required field '' @ [CHR 0x27]
           @ ''severity'' @ [CHR 0x27] \<in> set (cliRuleErrors (rid, r)))
      \<and> (\<forall>s. severity r = Some s \<and> s \<noteq> [] \<and> s \<noteq> ''CRITICAL'' \<and> s \<noteq> ''HIGH''
            \<and> s \<noteq> ''MEDIUM'' \<and> s \<noteq> ''LOW'' \<longrightarrow>
         ''Rule '' @ rid @ '': invalid severity '' @ [CHR 0x27] @ s @ [CHR 0x27]
           @ '' (must be CRITICAL, HIGH, MEDIUM, or LOW)'' \<in> set (cliRuleErrors (rid, r)))"
    for rid r
    by (auto simp: cliRuleErrors_def missingField_def apostrophe_def truthy_iff
        allowedSeverities_def)
  have clean: "errors ?report = []"
    if none: "conflicts resolved = []"
      and ok: "list_all (\<lambda>(rid, r). name r \<noteq> None \<and> name r \<noteq> Some []
                      \<and> description r \<noteq> None \<and> description r \<noteq> Some []
                      \<and> category r \<noteq> None \<and> category r \<noteq> Some []
                      \<and> (severity r = Some ''CRITICAL'' \<or> severity r = Some ''HIGH''
                         \<or> severity r = Some ''MEDIUM'' \<or> severity r = Some ''LOW''))
                    (mergedRules resolved)"
  proof -
    have "cliRuleErrors e = []" if "e \<in> set (mergedRules resolved)" for e
      using that ok by (cases e) (auto simp: list_all_iff intro!: cliRuleErrors_none)
    then have "concat (map cliRuleErrors (mergedRules resolved)) = []" by simp
    moreover have "conflictErrors (conflicts resolved) = []"
      by (simp add: none conflictErrors_def)
    moreover have "spec_required_fields r" if "(k, r) \<in> set (mergedRules resolved)" for k r
      using that ok by (auto simp: list_all_iff spec_required_fields_def)
    then have "concat (map requiredFieldErrors (mergedRules resolved)) = []"
      unfolding all_requiredFieldErrors_none by (auto simp: list_all_iff)
    then have "errors (validateResolved resolved) = []"
      using distinct_resolveRules [OF rr]
      by (simp add: validateResolved_def Let_def none conflictErrors_def
          duplicateErrors_distinct)
    ultimately show ?thesis unfolding errs by simp
  qed
  show "let report = ?report
          in (valid report \<longleftrightarrow> errors report = [])
            \<and> (\<forall>(rid, r)\<in>set (mergedRules resolved).
                  ((name r = None \<or> name r = Some []) \<longrightarrow>
                     ''Rule '' @ rid @ '': missing required field '' @ [CHR 0x27] @ ''name''
                       @ [CHR 0x27] \<in> set (errors report))
                \<and> ((description r = None \<or> description r = Some []) \<longrightarrow>
                     ''Rule '' @ rid @ '': missing required field '' @ [CHR 0x27]
                       @ ''description'' @ [CHR 0x27] \<in> set (errors report))
                \<and> ((severity r = None \<or> severity r = Some []) \<longrightarrow>
                     ''Rule '' @ rid @ '': missing required field '' @ [CHR 0x27]
                       @ ''severity'' @ [CHR 0x27] \<in> set (errors report))
                \<and> (\<forall>s. severity r = Some s \<and> s \<noteq> [] \<and> s \<noteq> ''CRITICAL'' \<and> s \<noteq> ''HIGH''
                        \<and> s \<noteq> ''MEDIUM'' \<and> s \<noteq> ''LOW'' \<longrightarrow>
                     ''Rule '' @ rid @ '': invalid severity '' @ [CHR 0x27] @ s @ [CHR 0x27]
                       @ '' (must be CRITICAL, HIGH, MEDIUM, or LOW)'' \<in> set (errors report)))
            \<and> (conflicts resolved = []
                \<and> list_all (\<lambda>(rid, r). name r \<noteq> None \<and> name r \<noteq> Some []
                      \<and> description r \<noteq> None \<and> description r \<noteq> Some []
                      \<and> category r \<noteq> None \<and> category r \<noteq> Some []
                      \<and> (severity r = Some ''CRITICAL'' \<or> severity r = Some ''HIGH''
                         \<or> severity r = Some ''MEDIUM'' \<or> severity r = Some ''LOW''))
                    (mergedRules resolved)
                \<longrightarrow> errors report = [])"
    unfolding Let_def
  proof (intro conjI ballI impI)
    show "valid ?report \<longleftrightarrow> errors ?report = []"
      by (rule validateConstitutionalRules_valid)
  next
    fix e
    assume mem: "e \<in> set (mergedRules resolved)"
    obtain rid r where e: "e = (rid, r)" by (cases e)
    show "case e of (rid, r) \<Rightarrow>
            ((name r = None \<or> name r = Some []) \<longrightarrow>
               ''Rule '' @ rid @ '': missing required field '' @ [CHR 0x27] @ ''name''
                 @ [CHR 0x27] \<in> set (errors ?report))
          \<and> ((description r = None \<or> description r = Some []) \<longrightarrow>
               ''Rule '' @ rid @ '': missing required field '' @ [CHR 0x27]
                 @ ''description'' @ [CHR 0x27] \<in> set (errors ?report))
          \<and> ((severity r = None \<or> severity r = Some []) \<longrightarrow>
               ''Rule '' @ rid @ '': missing required field '' @ [CHR 0x27]
                 @ ''severity'' @ [CHR 0x27] \<in> set (errors ?report))
          \<and> (\<forall>s. severity r = Some s \<and> s \<noteq> [] \<and> s \<noteq> ''CRITICAL'' \<and> s \<noteq> ''HIGH''
                  \<and> s \<noteq> ''MEDIUM'' \<and> s \<noteq> ''LOW'' \<longrightarrow>
               ''Rule '' @ rid @ '': invalid severity '' @ [CHR 0x27] @ s @ [CHR 0x27]
                 @ '' (must be CRITICAL, HIGH, MEDIUM, or LOW)'' \<in> set (errors ?report))"
      unfolding e prod.case using fields [of r rid] each [OF mem [unfolded e]] by blast
  next
    assume "conflicts resolved = []
        \<and> list_all (\<lambda>(rid, r). name r \<noteq> None \<and> name r \<noteq> Some []
              \<and> description r \<noteq> None \<and> description r \<noteq> Some []
              \<and> category r \<noteq> None \<and> category r \<noteq> Some []
              \<and> (severity r = Some ''CRITICAL'' \<or> severity r = Some ''HIGH''
                 \<or> severity r = Some ''MEDIUM'' \<or> severity r = Some ''LOW''))
            (mergedRules resolved)"
    then show "errors ?report = []" using clean by blast
  qed
next
  have sub: "set (requiredFieldErrors (rid, r)) \<subseteq> set (errors (validateResolved resolved))"
    if "(rid, r) \<in> set (mergedRules resolved)" for rid r
    using that by (auto simp: validateResolved_def Let_def)
  have fields: "((name r = None \<or> name r = Some []) \<longrightarrow>
         ''Rule '' @ rid @ '' missing required field: name'' \<in> set (requiredFieldErrors (rid, r)))
      \<and> ((description r = None \<or> description r = Some []) \<longrightarrow>
         ''Rule '' @ rid @ '' missing required field: description''
           \<in> set (requiredFieldErrors (rid, r)))
      \<and> ((severity r = None \<or> severity r = Some []) \<longrightarrow>
         ''Rule '' @ rid @ '' missing required field: severity''
           \<in> set (requiredFieldErrors (rid, r)))" for rid r
    by (auto simp: requiredFieldErrors_def truthy_iff)
  have "\<forall>(rid, r)\<in>set (mergedRules resolved).
          ((name r = None \<or> name r = Some []) \<longrightarrow>
             ''Rule '' @ rid @ '' missing required field: name''
               \<in> set (errors (validateResolved resolved)))
        \<and> ((description r = None \<or> description r = Some []) \<longrightarrow>
             ''Rule '' @ rid @ '' missing required field: description''
               \<in> set (errors (validateResolved resolved)))
        \<and> ((severity r = None \<or> severity r = Some []) \<longrightarrow>
             ''Rule '' @ rid @ '' missing required field: severity''
               \<in> set (errors (validateResolved resolved)))"
  proof (intro ballI)
    fix e
    assume mem: "e \<in> set (mergedRules resolved)"
    obtain rid r where e: "e = (rid, r)" by (cases e)
    show "case e of (rid, r) \<Rightarrow>
          ((name r = None \<or> name r = Some []) \<longrightarrow>
             ''Rule '' @ rid @ '' missing required field: name''
               \<in> set (errors (validateResolved resolved)))
        \<and> ((description r = None \<or> description r = Some []) \<longrightarrow>
             ''Rule '' @ rid @ '' missing required field: description''
               \<in> set (errors (validateResolved resolved)))
        \<and> ((severity r = None \<or> severity r = Some []) \<longrightarrow>
             ''Rule '' @ rid @ '' missing required field: severity''
               \<in> set (errors (validateResolved resolved)))"
      unfolding e prod.case using fields [of r rid] sub [OF mem [unfolded e]] by blast
  qed
  then show "\<exists>report. validateRules rp fs p = Inr report
            \<and> (valid report \<longleftrightarrow> errors report = [])
            \<and> (\<forall>(rid, r)\<in>set (mergedRules resolved).
                  ((name r = None \<or> name r = Some []) \<longrightarrow>
                     ''Rule '' @ rid @ '' missing required field: name'' \<in> set (errors report))
                \<and> ((description r = None \<or> description r = Some []) \<longrightarrow>
                     ''Rule '' @ rid @ '' missing required field: description''
                       \<in> set (errors report))
                \<and> ((severity r = None \<or> severity r = Some []) \<longrightarrow>
                     ''Rule '' @ rid @ '' missing required field: severity''
                       \<in> set (errors report)))"
    using validateResolved_valid [of resolved] by (simp add: validateRules_def rr)
qed

text \<open>
  Two examples. A file with a rule of severity \<open>URGENT\<close> and a rule that has no name, an
  empty description and no severity: each fault is reported. And the file of the six
  rules, which has no fault: its validation is \<open>valid\<close>, with no error.
\<close>

lemma resolveRules_fsFaulty:
  "resolveRules absolutePaths fsFaulty ''/rules.json''
     = Inr \<lparr>mergedRules = [(''r1'', ruleWith ''first'' ''URGENT'' True), (''r2'', namelessRule)],
            sources = [(''r1'', [''/rules.json'']), (''r2'', [''/rules.json''])],
            conflicts = []\<rparr>"
  by (simp add: resolveRules_def resolveInheritanceChain.simps fsFaulty_def loadRuleSet_def
      noExtends_def entries_def emptyResolved_def merge_eval)

lemma fsFaulty_file:
  "\<exists>d. map_of fsFaulty ''/rules.json'' = Some (Doc d)"
  by (simp add: fsFaulty_def)

lemma fsEffective_file:
  "\<exists>d. map_of fsEffective ''/project.json'' = Some (Doc d)"
  by (simp add: fsEffective_def)

theorem required_fields_checked_witness:
  "\<not> valid (validateConstitutionalRules absolutePaths fsFaulty None (Some ''/rules.json''))
   \<and> ''Rule r1: invalid severity '' @ [CHR 0x27] @ ''URGENT'' @ [CHR 0x27]
         @ '' (must be CRITICAL, HIGH, MEDIUM, or LOW)''
       \<in> set (errors (validateConstitutionalRules absolutePaths fsFaulty None
            (Some ''/rules.json'')))
   \<and> ''Rule r2: missing required field '' @ [CHR 0x27] @ ''name'' @ [CHR 0x27]
       \<in> set (errors (validateConstitutionalRules absolutePaths fsFaulty None
            (Some ''/rules.json'')))
   \<and> ''Rule r2: missing required field '' @ [CHR 0x27] @ ''description'' @ [CHR 0x27]
       \<in> set (errors (validateConstitutionalRules absolutePaths fsFaulty None
            (Some ''/rules.json'')))
   \<and> ''Rule r2: missing required field '' @ [CHR 0x27] @ ''severity'' @ [CHR 0x27]
       \<in> set (errors (validateConstitutionalRules absolutePaths fsFaulty None
            (Some ''/rules.json'')))
   \<and> valid (validateConstitutionalRules absolutePaths fsEffective None
        (Some ''/project.json''))
   \<and> errors (validateConstitutionalRules absolutePaths fsEffective None
        (Some ''/project.json'')) = []"
proof -
  have p: "''/rules.json'' \<noteq> []" and p': "''/project.json'' \<noteq> []" by simp_all
  obtain d where d: "map_of fsFaulty ''/rules.json'' = Some (Doc d)"
    using fsFaulty_file ..
  obtain d' where d': "map_of fsEffective ''/project.json'' = Some (Doc d')"
    using fsEffective_file ..
  from required_fields_checked [OF resolveRules_fsFaulty p d, of None]
  have faulty: "\<not> valid (validateConstitutionalRules absolutePaths fsFaulty None
        (Some ''/rules.json''))
   \<and> ''Rule r1: invalid severity '' @ [CHR 0x27] @ ''URGENT'' @ [CHR 0x27]
         @ '' (must be CRITICAL, HIGH, MEDIUM, or LOW)''
       \<in> set (errors (validateConstitutionalRules absolutePaths fsFaulty None
            (Some ''/rules.json'')))
   \<and> ''Rule r2: missing required field '' @ [CHR 0x27] @ ''name'' @ [CHR 0x27]
       \<in> set (errors (validateConstitutionalRules absolutePaths fsFaulty None
            (Some ''/rules.json'')))
   \<and> ''Rule r2: missing required field '' @ [CHR 0x27] @ ''description'' @ [CHR 0x27]
       \<in> set (errors (validateConstitutionalRules absolutePaths fsFaulty None
            (Some ''/rules.json'')))
   \<and> ''Rule r2: missing required field '' @ [CHR 0x27] @ ''severity'' @ [CHR 0x27]
       \<in> set (errors (validateConstitutionalRules absolutePaths fsFaulty None
            (Some ''/rules.json'')))"
    unfolding Let_def
    by (auto simp: ruleWith_def namelessRule_def emptyRule_def)
  from required_fields_checked [OF resolveRules_fsEffective p' d', of None]
  have clean: "valid (validateConstitutionalRules absolutePaths fsEffective None
        (Some ''/project.json''))
   \<and> errors (validateConstitutionalRules absolutePaths fsEffective None
        (Some ''/project.json'')) = []"
    unfolding Let_def
    by (simp add: mergedExample_def ruleWith_def emptyRule_def)
  from faulty clean show ?thesis by blast
qed

text \<open>
  The test of the literal is the command-line validator's: \<open>validateRules\<close>, called
  alone, has no error for the severity \<open>URGENT\<close>, and the validator reports it.
\<close>

lemma resolveRules_fsUrgent:
  "resolveRules absolutePaths fsUrgent ''/rules.json'' = Inr resolvedUrgent"
  by (simp add: resolveRules_def resolveInheritanceChain.simps fsUrgent_def loadRuleSet_def
      noExtends_def urgentDoc_def entries_def emptyResolved_def merge_eval
      resolvedUrgent_def)

lemma validateRules_urgent:
  "validateRules absolutePaths fsUrgent ''/rules.json''
     = Inr \<lparr>valid = True, errors = [], warnings = []\<rparr>"
  by (simp add: validateRules_def resolveRules_fsUrgent resolvedUrgent_def
      validateResolved_def conflictErrors_def conflictWarnings_def requiredFieldErrors_def
      ruleWith_def emptyRule_def truthy_def)

lemma fsUrgent_file: "map_of fsUrgent ''/rules.json'' = Some (Doc urgentDoc)"
  by (simp add: fsUrgent_def)

lemma urgent_cli:
  "errors (validateConstitutionalRules absolutePaths fsUrgent None (Some ''/rules.json''))
    = [''Rule r1: invalid severity '' @ [CHR 0x27] @ ''URGENT'' @ [CHR 0x27]
         @ '' (must be CRITICAL, HIGH, MEDIUM, or LOW)'']"
  by (simp add: validateConstitutionalRules_def truthy_def readAndParse_def
      validateResolvedPath_def validateRules_def resolveRules_fsUrgent resolvedUrgent_def
      validateResolved_def conflictErrors_def conflictWarnings_def requiredFieldErrors_def
      cliRuleErrors_def cliConflictWarnings_def cliRuleWarnings_def allowedSeverities_def
      apostrophe_def ruleWith_def emptyRule_def fsUrgent_file)

section \<open>Properties of the session store\<close>

lemma initialize_defined:
  "initializeSessionConstitution env now sid m sid \<noteq> None"
  by (simp add: initializeSessionConstitution_def split: option.splits)

lemma initialize_rules:
  "m sid = None \<Longrightarrow>
     initializeSessionConstitution env now sid m
       = m(sid \<mapsto> \<lparr>sessionRules = rulesAtStart env m sid,
                    fileLoaded = truthy (rulesPathFound env), updated = now\<rparr>)"
  by (simp add: initializeSessionConstitution_def rulesAtStart_def)

lemma initialize_existing:
  "m sid = Some e \<Longrightarrow> initializeSessionConstitution env now sid m = m"
  by (simp add: initializeSessionConstitution_def)

lemma getConstitution_new:
  "m sid = None \<Longrightarrow>
     getConstitution env now sid m
       = (m(sid \<mapsto> \<lparr>sessionRules = rulesAtStart env m sid,
                     fileLoaded = truthy (rulesPathFound env), updated = now\<rparr>),
          rulesAtStart env m sid)"
  by (simp add: getConstitution_def initialize_rules)

lemma getConstitution_existing:
  "m sid = Some e \<Longrightarrow>
     getConstitution env now sid m = (m(sid \<mapsto> e\<lparr>updated := now\<rparr>), sessionRules e)"
  by (simp add: getConstitution_def)

lemma updateConstitution_new:
  "sid \<noteq> [] \<Longrightarrow> rule \<noteq> [] \<Longrightarrow> m sid = None \<Longrightarrow>
     updateConstitution env now sid rule m
       = m(sid \<mapsto> \<lparr>sessionRules = pushCapped (rulesAtStart env m sid) rule,
                    fileLoaded = truthy (rulesPathFound env), updated = now\<rparr>)"
  by (simp add: updateConstitution_def initialize_rules pushCapped_def Let_def)

lemma updateConstitution_existing:
  "sid \<noteq> [] \<Longrightarrow> rule \<noteq> [] \<Longrightarrow> m sid = Some e \<Longrightarrow>
     updateConstitution env now sid rule m
       = m(sid \<mapsto> e\<lparr>sessionRules := pushCapped (sessionRules e) rule, updated := now\<rparr>)"
  by (simp add: updateConstitution_def pushCapped_def Let_def)

lemma updateConstitution_ignored:
  "sid = [] \<or> rule = [] \<Longrightarrow> updateConstitution env now sid rule m = m"
  by (auto simp: updateConstitution_def)



subsection \<open>Idle expiry\<close>



subsection \<open>Appending\<close>

lemma rulesAtStart_update:
  "sid \<noteq> [] \<Longrightarrow> rule \<noteq> [] \<Longrightarrow>
     rulesAtStart env (updateConstitution env now sid rule m) sid
       = pushCapped (rulesAtStart env m sid) rule"
  by (cases "m sid")
     (simp_all add: updateConstitution_new updateConstitution_existing rulesAtStart_def)

lemma update_defined:
  "sid \<noteq> [] \<Longrightarrow> rule \<noteq> [] \<Longrightarrow> updateConstitution env now sid rule m sid \<noteq> None"
  by (cases "m sid") (simp_all add: updateConstitution_new updateConstitution_existing)

lemma update_keeps_defined:
  "m sid \<noteq> None \<Longrightarrow> updateConstitution env now sid' rule m sid \<noteq> None"
  by (cases "sid' = [] \<or> rule = []"; cases "m sid'")
     (auto simp: updateConstitution_ignored updateConstitution_new updateConstitution_existing)

lemma run_updates:
  "sid \<noteq> [] \<Longrightarrow> length ts = length xs \<Longrightarrow>
     rulesAtStart env (run env (zip ts (map (Update sid) xs)) m) sid
       = foldl pushCapped (rulesAtStart env m sid) (filter (\<lambda>r. r \<noteq> []) xs)"
proof (induction xs arbitrary: ts m)
  case Nil
  then show ?case by (simp add: run_def)
next
  case (Cons x xs)
  then obtain t ts' where ts: "ts = t # ts'" and len: "length ts' = length xs"
    by (cases ts) auto
  have "rulesAtStart env (run env (zip ts' (map (Update sid) xs))
            (updateConstitution env t sid x m)) sid
      = foldl pushCapped (rulesAtStart env (updateConstitution env t sid x m) sid)
          (filter (\<lambda>r. r \<noteq> []) xs)"
    using Cons.IH [OF Cons.prems(1) len] by simp
  then show ?case
    using Cons.prems(1)
    by (cases "x = []") (simp_all add: ts run_def rulesAtStart_update updateConstitution_ignored)
qed

lemma run_updates_defined:
  "sid \<noteq> [] \<Longrightarrow> length ts = length xs \<Longrightarrow> (\<exists>r\<in>set xs. r \<noteq> []) \<or> m sid \<noteq> None \<Longrightarrow>
     run env (zip ts (map (Update sid) xs)) m sid \<noteq> None"
proof (induction xs arbitrary: ts m)
  case Nil
  then show ?case by (simp add: run_def)
next
  case (Cons x xs)
  then obtain t ts' where ts: "ts = t # ts'" and len: "length ts' = length xs"
    by (cases ts) auto
  have "updateConstitution env t sid x m sid \<noteq> None \<or> (\<exists>r\<in>set xs. r \<noteq> [])"
    using Cons.prems(1,3) update_defined [of sid x env t m] update_keeps_defined [of m sid env t sid x]
    by auto
  then have "run env (zip ts' (map (Update sid) xs)) (updateConstitution env t sid x m) sid \<noteq> None"
    using Cons.IH [OF Cons.prems(1) len] by blast
  then show ?case by (simp add: ts run_def)
qed

lemma drop_to_capacity:
  "drop (length (drop (length zs - M) zs @ ys) - M) (drop (length zs - M) zs @ ys)
     = drop (length (zs @ ys) - M) (zs @ ys)"
proof (cases "length zs \<le> M")
  case True
  then show ?thesis by simp
next
  case False
  then obtain k where k: "length zs = M + k"
    by (metis le_iff_add nat_le_linear)
  show ?thesis by (simp add: k add.commute)
qed

lemma pushCapped_last:
  "length rs \<le> MAX_RULES_PER_SESSION \<Longrightarrow>
     pushCapped rs r = drop (length (rs @ [r]) - MAX_RULES_PER_SESSION) (rs @ [r])"
  by (cases rs) (auto simp: pushCapped_def MAX_RULES_PER_SESSION_def drop_Cons')

lemma foldl_pushCapped:
  "length rs \<le> MAX_RULES_PER_SESSION \<Longrightarrow>
     foldl pushCapped rs ys = drop (length (rs @ ys) - MAX_RULES_PER_SESSION) (rs @ ys)"
proof (induction ys arbitrary: rs)
  case Nil
  then show ?case by simp
next
  case (Cons y ys)
  have eq: "pushCapped rs y = drop (length (rs @ [y]) - MAX_RULES_PER_SESSION) (rs @ [y])"
    using Cons.prems by (rule pushCapped_last)
  have len: "length (pushCapped rs y) \<le> MAX_RULES_PER_SESSION"
    unfolding eq by simp
  have "foldl pushCapped (pushCapped rs y) ys
      = drop (length (pushCapped rs y @ ys) - MAX_RULES_PER_SESSION) (pushCapped rs y @ ys)"
    using len by (rule Cons.IH)
  also have "\<dots> = drop (length ((rs @ [y]) @ ys) - MAX_RULES_PER_SESSION) ((rs @ [y]) @ ys)"
    unfolding eq by (rule drop_to_capacity)
  finally show ?case by simp
qed

lemma rulesAtStart_existing: "m sid = Some e \<Longrightarrow> rulesAtStart env m sid = sessionRules e"
  by (simp add: rulesAtStart_def)

text \<open>
  C8, as amended. A session with a non-empty id starts with an empty rule list (it has
  an empty list, or it has no entry and no rules are loaded for it). After
  \<open>MAX_RULES_PER_SESSION + 1 = 51\<close> calls of \<open>updateConstitution\<close> with non-empty rule
  strings, at any times, its list is the appended strings without the first, in append
  order, and has length 50. An empty rule string or an empty session id makes the call
  return at once, so such a call appends nothing.
\<close>

theorem capacity_evicts_first:
  assumes sid: "sid \<noteq> []" and nonempty: "\<forall>r\<in>set xs. r \<noteq> []"
    and len: "length xs = MAX_RULES_PER_SESSION + 1"
    and ts: "length ts = length xs"
    and start: "rulesAtStart env m sid = []"
  shows "\<exists>e. run env (zip ts (map (Update sid) xs)) m sid = Some e
           \<and> sessionRules e = tl xs
           \<and> length (sessionRules e) = MAX_RULES_PER_SESSION"
proof -
  let ?m = "run env (zip ts (map (Update sid) xs)) m"
  have "xs \<noteq> []" using len by auto
  then have "\<exists>r\<in>set xs. r \<noteq> []" using nonempty by (cases xs) auto
  then have "?m sid \<noteq> None" using sid ts by (intro run_updates_defined) auto
  then obtain e where e: "?m sid = Some e" by blast
  have all: "filter (\<lambda>r. r \<noteq> []) xs = xs" using nonempty by (simp add: filter_id_conv)
  have "sessionRules e = rulesAtStart env ?m sid" using e by (simp add: rulesAtStart_existing)
  also have "\<dots> = foldl pushCapped [] xs"
    using run_updates [OF sid ts, of env m] by (simp add: all start)
  also have "\<dots> = drop (length ([] @ xs) - MAX_RULES_PER_SESSION) ([] @ xs)"
    by (rule foldl_pushCapped) simp
  also have "\<dots> = tl xs" using len by (simp add: drop_Suc)
  finally have "sessionRules e = tl xs" .
  then show ?thesis using e len by simp
qed

theorem capacity_evicts_first_witness:
  "\<exists>e. run envNoFile (zip (replicate 51 0) (map (Update ''session'') fiftyOne)) Map.empty
          ''session'' = Some e
      \<and> sessionRules e = tl fiftyOne
      \<and> length (sessionRules e) = MAX_RULES_PER_SESSION"
  by (rule capacity_evicts_first)
     (simp_all add: fiftyOne_def MAX_RULES_PER_SESSION_def rulesAtStart_def envNoFile_def
        truthy_def)

text \<open>
  The claim as first stated is about any fifty-one rule strings. When the second one is
  empty, fifty are appended and the first is still in the list.
\<close>

theorem empty_rule_not_appended:
  "map_option sessionRules
     (run envNoFile (zip (replicate 51 0) (map (Update ''session'') withEmpty)) Map.empty
        ''session'')
     = Some (''first'' # replicate 49 ''later'')
   \<and> length withEmpty = MAX_RULES_PER_SESSION + 1
   \<and> tl withEmpty = [] # replicate 49 ''later''"
proof -
  let ?m = "run envNoFile (zip (replicate 51 0) (map (Update ''session'') withEmpty)) Map.empty"
  have len: "length (replicate 51 (0::int)) = length withEmpty"
    by (simp add: withEmpty_def)
  have "?m ''session'' \<noteq> None"
    by (rule run_updates_defined [OF _ len]) (simp_all add: withEmpty_def)
  then obtain e where e: "?m ''session'' = Some e" by blast
  have "sessionRules e = rulesAtStart envNoFile ?m ''session''"
    using e by (simp add: rulesAtStart_existing)
  also have "\<dots> = foldl pushCapped [] (''first'' # replicate 49 ''later'')"
    using run_updates [OF _ len, of "''session''" envNoFile Map.empty]
    by (simp add: withEmpty_def rulesAtStart_def envNoFile_def truthy_def)
  also have "\<dots> = drop (length ([] @ ''first'' # replicate 49 ''later'') - MAX_RULES_PER_SESSION)
                     ([] @ ''first'' # replicate 49 ''later'')"
    by (rule foldl_pushCapped) simp
  also have "\<dots> = ''first'' # replicate 49 ''later''"
    by (simp add: MAX_RULES_PER_SESSION_def)
  finally show ?thesis using e by (simp add: withEmpty_def MAX_RULES_PER_SESSION_def)
qed

subsection \<open>Capacity\<close>

lemma length_pushCapped:
  "length rs \<le> MAX_RULES_PER_SESSION \<Longrightarrow> length (pushCapped rs r) \<le> MAX_RULES_PER_SESSION"
  by (simp add: pushCapped_last)

lemma pushCapped_full:
  "length rs = MAX_RULES_PER_SESSION \<Longrightarrow> pushCapped rs r = tl rs @ [r]"
  by (simp add: pushCapped_def)

lemma length_pushCapped_over:
  "length rs > MAX_RULES_PER_SESSION \<Longrightarrow> length (pushCapped rs r) = length rs"
  by (cases rs) (simp_all add: pushCapped_def)

lemma withinCapacity_get:
  assumes "length (rulesAtStart env m sid) \<le> MAX_RULES_PER_SESSION" and "withinCapacity m"
  shows "withinCapacity (fst (getConstitution env now sid m))"
  using assms
  by (cases "m sid")
     (auto simp: withinCapacity_def getConstitution_new getConstitution_existing
        rulesAtStart_def)

lemma withinCapacity_update:
  assumes "length (rulesAtStart env m sid) \<le> MAX_RULES_PER_SESSION" and "withinCapacity m"
  shows "withinCapacity (updateConstitution env now sid rule m)"
proof (cases "sid = [] \<or> rule = []")
  case True
  then show ?thesis using assms(2) by (simp add: updateConstitution_ignored)
next
  case False
  then show ?thesis
    using assms
    by (cases "m sid")
       (auto simp: withinCapacity_def updateConstitution_new updateConstitution_existing
          rulesAtStart_def length_pushCapped)
qed

lemma withinCapacity_reset:
  "withinCapacity m \<Longrightarrow> withinCapacity (resetConstitution now sid newRules m)"
  by (auto simp: withinCapacity_def resetConstitution_def)

lemma withinCapacity_cleanup: "withinCapacity m \<Longrightarrow> withinCapacity (cleanup now m)"
  by (auto simp: withinCapacity_def cleanup_def split: option.splits if_splits)

text \<open>
  When the rules loaded from the files fit the capacity, every operation keeps every
  entry within it.
\<close>

lemma withinCapacity_step:
  assumes fit: "length (loadConstitutionalRulesAsStrings (resolvePath env) (files env)
                   (rulesPathFound env)) \<le> MAX_RULES_PER_SESSION"
    and m: "withinCapacity m"
  shows "withinCapacity (step env m timedOp)"
proof -
  have start: "length (rulesAtStart env m sid) \<le> MAX_RULES_PER_SESSION" for sid
    using fit m by (auto simp: rulesAtStart_def withinCapacity_def split: option.splits)
  obtain now op where timedOp: "timedOp = (now, op)" by (cases timedOp)
  show ?thesis
    unfolding timedOp
    by (cases op)
       (simp_all add: withinCapacity_get withinCapacity_update withinCapacity_reset
          withinCapacity_cleanup start m)
qed

lemma withinCapacity_run:
  assumes "length (loadConstitutionalRulesAsStrings (resolvePath env) (files env)
                   (rulesPathFound env)) \<le> MAX_RULES_PER_SESSION"
    and "withinCapacity m"
  shows "withinCapacity (run env ops m)"
  using assms(2) unfolding run_def
  by (induction ops arbitrary: m) (simp_all add: withinCapacity_step [OF assms(1)])

subsection \<open>Rules loaded from a file\<close>

lemma assign_absent:
  "k \<notin> fst ` set obj \<Longrightarrow> \<not> isArrayIndex k \<Longrightarrow> assign k v obj = obj @ [(k, v)]"
  by (simp add: assign_def map_of_eq_None_iff)

lemma foldl_mergeRuleOwn_fresh:
  "distinct (map fst es) \<Longrightarrow> \<forall>k\<in>fst ` set es. \<not> isArrayIndex k
     \<Longrightarrow> fst ` set es \<inter> fst ` set (mergedRules acc) = {}
     \<Longrightarrow> mergedRules (foldl (mergeRuleOwn fp) acc es) = mergedRules acc @ es"
proof (induction es arbitrary: acc)
  case Nil
  show ?case by simp
next
  case (Cons e es)
  obtain k v where e: "e = (k, v)" by (cases e)
  have k: "k \<notin> fst ` set (mergedRules acc)" using Cons.prems(3) e by auto
  have ni: "\<not> isArrayIndex k" using Cons.prems(2) e by simp
  have step: "mergedRules (mergeRuleOwn fp acc e) = mergedRules acc @ [e]"
    using k ni by (simp add: e mergeRuleOwn_def assign_absent)
  have "k \<notin> fst ` set es" using Cons.prems(1) e by auto
  moreover have "fst ` set es \<inter> fst ` set (mergedRules acc) = {}"
    using Cons.prems(3) by auto
  ultimately have "fst ` set es \<inter> fst ` set (mergedRules (mergeRuleOwn fp acc e)) = {}"
    unfolding step by (auto simp: e)
  then have "mergedRules (foldl (mergeRuleOwn fp) (mergeRuleOwn fp acc e) es)
      = mergedRules (mergeRuleOwn fp acc e) @ es"
    using Cons.prems(1,2) by (intro Cons.IH) simp_all
  then show ?case by (simp add: step)
qed

lemma length_insertSorted: "length (insertSorted cmp x ys) = Suc (length ys)"
  by (induction ys) simp_all

lemma length_sortStable: "length (sortStable cmp xs) = length xs"
  by (induction xs) (simp_all add: sortStable_def length_insertSorted)

lemma resolveRules_single:
  "loadRuleSet fs p = Inr doc \<Longrightarrow> noExtends doc \<Longrightarrow> ownIds doc
     \<Longrightarrow> resolveRules rp fs p = Inr (mergeFileOwn p doc emptyResolved)"
  by (simp add: resolveRules_def resolve_leaf mergeFile_own)

lemma file_rules_all_loaded:
  assumes path: "rulesPathFound env = Some p" "p \<noteq> []"
    and doc: "loadRuleSet (files env) p = Inr doc" "noExtends doc"
    and content: "rules doc = Some es" "overrides doc = None"
    and keys: "distinct (map fst es)"
    and ids: "\<forall>k\<in>fst ` set es. \<not> inherited k \<and> \<not> isArrayIndex k"
    and on: "\<forall>(k, r)\<in>set es. isEnabled r"
  shows "length (loadConstitutionalRulesAsStrings (resolvePath env) (files env)
           (rulesPathFound env)) = length es"
proof -
  have own: "ownIds doc"
    using ids by (simp add: ownIds_def content entries_def)
  have "mergedRules (mergeFileOwn p doc emptyResolved) = es"
    using foldl_mergeRuleOwn_fresh [OF keys, of emptyResolved p] ids
    by (simp add: mergeFileOwn_def content entries_def emptyResolved_def)
  then have "getEffectiveRules (resolvePath env) (files env) p = Inr (effectiveOf es)"
    by (simp add: getEffectiveRules_def resolveRules_single [OF doc own])
  moreover have "filter isEnabled (map snd es) = map snd es"
    using on by (auto simp: filter_id_conv)
  ultimately show ?thesis
    by (simp add: loadConstitutionalRulesAsStrings_def loadConstitutionalRules_def path
        truthy_def rulesToStrings_def effectiveOf_def length_sortStable)
qed

lemma distinct_manyRules: "distinct (map fst (manyRules n))"
proof -
  have "inj_on (\<lambda>i. replicate (Suc i) (CHR ''r'')) (set [0..<n])"
    by (rule inj_onI) (metis length_replicate nat.inject)
  then show ?thesis
    by (simp add: manyRules_def comp_def distinct_map)
qed

lemma plain_manyRules: "\<forall>k\<in>fst ` set (manyRules n). \<not> inherited k \<and> \<not> isArrayIndex k"
  by (auto simp: manyRules_def inherited_def objectPrototypeMembers_def isArrayIndex_def)

lemma manyRules_loaded:
  "length (loadConstitutionalRulesAsStrings (resolvePath (envMany n)) (files (envMany n))
           (rulesPathFound (envMany n))) = n"
proof -
  have "length (loadConstitutionalRulesAsStrings (resolvePath (envMany n)) (files (envMany n))
           (rulesPathFound (envMany n))) = length (manyRules n)"
    by (rule file_rules_all_loaded [where p = "''/rules.json''" and doc = "manyDoc n"])
       (simp_all add: envMany_def loadRuleSet_def manyDoc_def noExtends_def distinct_manyRules
          plain_manyRules,
        simp add: manyRules_def isEnabled_def ruleWith_def emptyRule_def)
  then show ?thesis by (simp add: manyRules_def)
qed

text \<open>
  C7. The claimed invariant, at most \<open>MAX_RULES_PER_SESSION = 50\<close> rules in every entry
  after any sequence of operations, holds when the rules loaded from the files fit the
  capacity (\<open>withinCapacity_run\<close> above): \<open>updateConstitution\<close> drops the oldest rule of
  a full list and \<open>resetConstitution\<close> truncates. \<open>initializeSessionConstitution\<close>
  does not truncate. With a rules file of 51 enabled rules the first
  \<open>getConstitution\<close> of a session returns 51 rules, and after an
  \<open>updateConstitution\<close> the entry still has 51.
\<close>

theorem session_cap_exceeded:
  "length (snd (getConstitution (envMany 51) 0 ''session'' Map.empty)) = 51
   \<and> length (rulesAtStart (envMany 51)
        (updateConstitution (envMany 51) 1 ''session'' ''one more''
           (fst (getConstitution (envMany 51) 0 ''session'' Map.empty))) ''session'') = 51
   \<and> MAX_RULES_PER_SESSION = 50"
proof -
  let ?env = "envMany 51"
  have start: "length (rulesAtStart ?env Map.empty ''session'') = 51"
    using manyRules_loaded [of 51] by (simp add: rulesAtStart_def envMany_def truthy_def)
  have get: "getConstitution ?env 0 ''session'' Map.empty
      = (Map.empty(''session'' \<mapsto> \<lparr>sessionRules = rulesAtStart ?env Map.empty ''session'',
                     fileLoaded = truthy (rulesPathFound ?env), updated = 0\<rparr>),
          rulesAtStart ?env Map.empty ''session'')"
    by (rule getConstitution_new) simp
  have mid: "rulesAtStart ?env (fst (getConstitution ?env 0 ''session'' Map.empty)) ''session''
      = rulesAtStart ?env Map.empty ''session''"
    unfolding get by (simp add: rulesAtStart_existing)
  have "length (pushCapped (rulesAtStart ?env Map.empty ''session'') ''one more'') = 51"
    using start by (simp add: length_pushCapped_over MAX_RULES_PER_SESSION_def)
  then have "length (rulesAtStart ?env
        (updateConstitution ?env 1 ''session'' ''one more''
           (fst (getConstitution ?env 0 ''session'' Map.empty))) ''session'') = 51"
    by (simp add: rulesAtStart_update mid)
  moreover have "length (snd (getConstitution ?env 0 ''session'' Map.empty)) = 51"
    unfolding get using start by simp
  ultimately show ?thesis by (simp add: MAX_RULES_PER_SESSION_def)
qed

end
